theory Spec2Isabelle
  imports Complex_Main "HOL-Library.Multiset"
begin

section \<open>The plugin reorder extension (class Sorter) over an explicit DOM fragment\<close>

text \<open>
  The extension works on one list container of the host page.  The model keeps the part
  of the page the code reads and writes: the container's children in DOM order (the rows
  are children of the container, as \<open>row.before(ph)\<close>, \<open>list.appendChild(el)\<close> and
  \<open>list.querySelectorAll(row)\<close> together expect), a heap from element references to the
  attributes the code touches, the container's \<open>dataset.sortAttach\<close> flag and scroll offset,
  \<open>localStorage\<close>, the sorter's \<open>drag\<close> object and the two document-level pointer handlers.

  Elements are references, so that \<open>i !== row\<close> and the values of the \<open>Map\<close> built by
  \<open>#applySaved\<close> compare by identity, as in the source.  Pixel quantities are JavaScript
  numbers: reals, with every sum, difference and quotient the code computes rounded by the
  host to the number it can represent (\<open>num\<close> below).
\<close>

subsection \<open>Configuration constants (CONFIG)\<close>

definition STORAGE_KEY :: string where
  "STORAGE_KEY = ''tm_plugin_custom_order''"

definition CLASSES_placeholder :: string where
  "CLASSES_placeholder = ''tm-plugin-reorder-placeholder''"

definition CLASSES_dragging :: string where
  "CLASSES_dragging = ''tm-plugin-reorder-dragging''"

definition DRAG_edgeDistance :: real where
  "DRAG_edgeDistance = 40"

subsection \<open>Elements, rectangles, inline styles\<close>

type_synonym ref = nat

text \<open>
  The properties the code reads of the rectangle \<open>getBoundingClientRect\<close> returns; each is
  a number the browser supplies.
\<close>

record rect =
  r_left :: real
  r_top :: real
  r_width :: real
  r_height :: real
  r_bottom :: real

text \<open>
  The inline style properties the code assigns.  A length \<open>`${x}px`\<close> is \<open>Some x\<close>, the
  empty string (property not set) is \<open>None\<close>; \<open>position\<close> and \<open>pointerEvents\<close> keep their
  keyword, empty when not set.
\<close>

record style =
  css_width :: "real option"
  css_height :: "real option"
  css_position :: string
  css_zIndex :: "int option"
  css_left :: "real option"
  css_top :: "real option"
  css_pointerEvents :: string

definition no_style :: style where
  "no_style = \<lparr>css_width = None, css_height = None, css_position = [], css_zIndex = None,
     css_left = None, css_top = None, css_pointerEvents = []\<rparr>"

text \<open>
  What the code reads of an element: whether it matches the row selector
  \<open>[role="menuitem"]\<close>, its class list, the text content of its first \<open>.truncate\<close>
  descendant (\<open>None\<close> when \<open>querySelector('.truncate')\<close> finds nothing), whether it has the
  wrapper \<open>SELECTORS.wrap\<close> the handle is prepended to, its \<open>dataset.hasHandle\<close> flag, the
  number of handle elements in its wrapper, and its inline style.  The handle's own text is
  white space in front of the wrapper's text, which \<open>trim\<close> drops, so prepending a handle
  leaves the display name as it was.
\<close>

record elem =
  menuitem :: bool
  classList :: "string list"
  truncateText :: "string option"
  hasWrap :: bool
  hasHandle :: bool
  handles :: nat
  inline :: style

definition blank_elem :: elem where
  "blank_elem = \<lparr>menuitem = False, classList = [], truncateText = None, hasWrap = False,
     hasHandle = False, handles = 0, inline = no_style\<rparr>"

subsection \<open>Stored values and \<open>JSON.parse\<close>\<close>

datatype json =
    JNull
  | JBool bool
  | JNum real
  | JStr string
  | JArr "json list"
  | JObj "(string \<times> json) list"

text \<open>
  A string held by \<open>localStorage\<close>, by what the host's \<open>JSON.parse\<close> does with it: the
  empty string, a non-empty string that is no JSON text, or the JSON text of a value.
  \<open>JSON.stringify\<close> of a value built from arrays and strings is a text of the third kind
  that parses back to the same value.
\<close>

datatype item = Blank | Corrupt | Json json

datatype error = SyntaxError | TypeError

definition JSON_parse :: "item \<Rightarrow> error + json" where
  "JSON_parse t = (case t of Json v \<Rightarrow> Inr v | _ \<Rightarrow> Inl SyntaxError)"

definition JSON_stringify :: "json \<Rightarrow> item" where
  "JSON_stringify v = Json v"

text \<open>JavaScript truthiness of a parsed value, and of a property read that may be \<open>undefined\<close>.\<close>

fun truthy :: "json \<Rightarrow> bool" where
  "truthy JNull = False"
| "truthy (JBool b) = b"
| "truthy (JNum x) = (x \<noteq> 0)"
| "truthy (JStr s) = (s \<noteq> [])"
| "truthy (JArr vs) = True"
| "truthy (JObj kvs) = True"

definition truthy_prop :: "json option \<Rightarrow> bool" where
  "truthy_prop p = (case p of None \<Rightarrow> False | Some v \<Rightarrow> truthy v)"

text \<open>
  \<open>saved.length\<close>: reading a property of \<open>null\<close> throws; numbers and booleans have no
  \<open>length\<close> (\<open>undefined\<close>); an object has the one of its own key \<open>length\<close>, the last
  occurrence of a repeated key winning in \<open>JSON.parse\<close>.
\<close>

fun js_length :: "json \<Rightarrow> error + json option" where
  "js_length JNull = Inl TypeError"
| "js_length (JBool b) = Inr None"
| "js_length (JNum x) = Inr None"
| "js_length (JStr s) = Inr (Some (JNum (real (length s))))"
| "js_length (JArr vs) = Inr (Some (JNum (real (length vs))))"
| "js_length (JObj kvs) = Inr (map_of (rev kvs) ''length'')"

subsection \<open>class Store\<close>

type_synonym storage = "string \<rightharpoonup> item"

text \<open>\<open>get() { return JSON.parse(localStorage.getItem(this.key) || '[]'); }\<close>\<close>

definition Store_get :: "string \<Rightarrow> storage \<Rightarrow> error + json" where
  "Store_get key ls =
     JSON_parse (case ls key of
                   None \<Rightarrow> Json (JArr [])
                 | Some Blank \<Rightarrow> Json (JArr [])
                 | Some t \<Rightarrow> t)"

text \<open>\<open>save(o) { localStorage.setItem(this.key, JSON.stringify(o)); }\<close>\<close>

definition Store_save :: "string \<Rightarrow> json \<Rightarrow> storage \<Rightarrow> storage" where
  "Store_save key v ls = ls(key \<mapsto> JSON_stringify v)"

subsection \<open>The state the sorter works on\<close>

text \<open>
  The \<open>drag\<close> object of a session.  \<open>d_list\<close> tells whether \<open>row.closest(list)\<close> found the
  container (\<open>null\<close> otherwise).
\<close>

record session =
  d_row :: ref
  d_list :: bool
  d_ph :: ref
  d_offX :: real
  d_offY :: real
  d_edge :: real

record world =
  kids :: "ref list"
  heap :: "ref \<Rightarrow> elem"
  sortAttach :: bool
  scrollTop :: real
  localStorage :: storage
  drag :: "session option"
  onpointermove :: bool
  onpointerup :: bool

text \<open>\<open>list.querySelectorAll('[role="menuitem"]')\<close>, in DOM order.\<close>

definition rows :: "world \<Rightarrow> ref list" where
  "rows w = filter (\<lambda>k. menuitem (heap w k)) (kids w)"

text \<open>\<open>String.prototype.trim\<close> on the code units a \<open>char\<close> can hold.\<close>

definition isWhiteSpace :: "char \<Rightarrow> bool" where
  "isWhiteSpace c = (c \<in> set [CHR 0x09, CHR 0x0A, CHR 0x0B, CHR 0x0C, CHR 0x0D, CHR 0x20, CHR 0xA0])"

definition trim :: "string \<Rightarrow> string" where
  "trim s = rev (dropWhile isWhiteSpace (rev (dropWhile isWhiteSpace s)))"

text \<open>\<open>r.querySelector('.truncate')?.textContent.trim()\<close>; \<open>None\<close> is \<open>undefined\<close>.\<close>

definition rowName :: "world \<Rightarrow> ref \<Rightarrow> string option" where
  "rowName w r = map_option trim (truncateText (heap w r))"

text \<open>The test \<open>if(n)\<close> and \<open>filter(Boolean)\<close> on such a name.\<close>

definition truthyName :: "string option \<Rightarrow> bool" where
  "truthyName n = (case n of None \<Rightarrow> False | Some s \<Rightarrow> s \<noteq> [])"

subsection \<open>\<open>#save\<close> and \<open>#applySaved\<close>\<close>

text \<open>An array element in \<open>JSON.stringify\<close>: \<open>undefined\<close> is written as \<open>null\<close>.\<close>

definition jsonOfName :: "string option \<Rightarrow> json" where
  "jsonOfName n = (case n of None \<Rightarrow> JNull | Some s \<Rightarrow> JStr s)"

definition save :: "world \<Rightarrow> world" where
  "save w =
     (let order = filter truthyName (map (rowName w) (rows w))
      in w\<lparr>localStorage := Store_save STORAGE_KEY (JArr (map jsonOfName order)) (localStorage w)\<rparr>)"

text \<open>
  \<open>list.appendChild(el)\<close> for an element that is already a child: it leaves its place and
  becomes the last child.
\<close>

definition appendChild :: "ref \<Rightarrow> ref list \<Rightarrow> ref list" where
  "appendChild el ks = remove1 el ks @ [el]"

text \<open>The \<open>Map\<close> from names to rows: a later row replaces an earlier one of the same name.\<close>

definition setName :: "world \<Rightarrow> ref \<Rightarrow> (string \<rightharpoonup> ref) \<Rightarrow> (string \<rightharpoonup> ref)" where
  "setName w r m =
     (case rowName w r of
        None \<Rightarrow> m
      | Some n \<Rightarrow> if n = [] then m else m(n \<mapsto> r))"

definition nameMap :: "world \<Rightarrow> (string \<rightharpoonup> ref)" where
  "nameMap w = fold (setName w) (rows w) Map.empty"

text \<open>
  One step of \<open>saved.forEach(n => { const el = map.get(n); if (el) list.appendChild(el); })\<close>.
  Only a string can equal a key of the map.
\<close>

fun restoreStep :: "(string \<rightharpoonup> ref) \<Rightarrow> json \<Rightarrow> ref list \<Rightarrow> ref list" where
  "restoreStep m (JStr n) ks = (case m n of None \<Rightarrow> ks | Some el \<Rightarrow> appendChild el ks)"
| "restoreStep m v ks = ks"

text \<open>
  \<open>#applySaved\<close>.  An exception leaves the state as it is at the throw and is returned
  beside it.  \<open>saved.forEach\<close> exists on arrays only: on a string or an object with a truthy
  \<open>length\<close> the call throws a \<open>TypeError\<close>.
\<close>

definition applySaved :: "world \<Rightarrow> world \<times> error option" where
  "applySaved w =
     (case Store_get STORAGE_KEY (localStorage w) of
        Inl e \<Rightarrow> (w, Some e)
      | Inr saved \<Rightarrow>
          (case js_length saved of
             Inl e \<Rightarrow> (w, Some e)
           | Inr len \<Rightarrow>
               if \<not> truthy_prop len then (w, None)
               else (case saved of
                       JArr vs \<Rightarrow> (w\<lparr>kids := fold (restoreStep (nameMap w)) vs (kids w)\<rparr>, None)
                     | _ \<Rightarrow> (w, Some TypeError))))"

subsection \<open>Attaching: \<open>#grip\<close>, \<open>#init\<close> and the observer of \<open>#watch\<close>\<close>

text \<open>
  \<open>#grip\<close>: a row that carries the flag is left alone; otherwise the flag is set and the new
  handle goes into the wrapper, when there is one (\<open>row.querySelector(wrap)?.prepend(h)\<close>).
\<close>

definition grip :: "ref \<Rightarrow> world \<Rightarrow> world" where
  "grip row w =
     (if hasHandle (heap w row) then w
      else w\<lparr>heap := (heap w)(row := (heap w row)
               \<lparr>hasHandle := True,
                handles := (if hasWrap (heap w row) then Suc (handles (heap w row))
                            else handles (heap w row))\<rparr>)\<rparr>)"

text \<open>
  \<open>#init\<close>: the flag is set first, so an exception of \<open>#applySaved\<close> leaves the list
  flagged and without handles.
\<close>

definition init :: "world \<Rightarrow> world \<times> error option" where
  "init w =
     (case applySaved (w\<lparr>sortAttach := True\<rparr>) of
        (w1, Some e) \<Rightarrow> (w1, Some e)
      | (w1, None) \<Rightarrow> (fold grip (rows w1) w1, None))"

text \<open>
  The observer's callback for an added node in which \<open>querySelector\<close> finds the list:
  \<open>if(list && !list.dataset.sortAttach) this.#init(list)\<close>.
\<close>

definition observed :: "world \<Rightarrow> world \<times> error option" where
  "observed w = (if sortAttach w then (w, None) else init w)"

subsection \<open>Moving nodes among the children\<close>

primrec put_before :: "ref \<Rightarrow> ref \<Rightarrow> ref list \<Rightarrow> ref list" where
  "put_before t n [] = []"
| "put_before t n (x # xs) = (if x = t then n # x # xs else x # put_before t n xs)"

primrec put_after :: "ref \<Rightarrow> ref \<Rightarrow> ref list \<Rightarrow> ref list" where
  "put_after t n [] = []"
| "put_after t n (x # xs) = (if x = t then x # n # xs else x # put_after t n xs)"

text \<open>
  \<open>t.before(n)\<close> and \<open>t.after(n)\<close>: nothing happens when \<open>t\<close> has no parent; otherwise
  \<open>n\<close> leaves the place it has, if any, and becomes the sibling before (after) \<open>t\<close>.
\<close>

definition before :: "ref \<Rightarrow> ref \<Rightarrow> ref list \<Rightarrow> ref list" where
  "before t n ks = (if t \<in> set ks \<and> t \<noteq> n then put_before t n (remove1 n ks) else ks)"

definition after :: "ref \<Rightarrow> ref \<Rightarrow> ref list \<Rightarrow> ref list" where
  "after t n ks = (if t \<in> set ks \<and> t \<noteq> n then put_after t n (remove1 n ks) else ks)"

text \<open>
  \<open>ph.replaceWith(row)\<close>: nothing happens when \<open>ph\<close> has no parent; otherwise \<open>row\<close> leaves
  its place and takes the one of \<open>ph\<close>, which leaves the tree.
\<close>

definition replaceWith :: "ref \<Rightarrow> ref \<Rightarrow> ref list \<Rightarrow> ref list" where
  "replaceWith ph row ks =
     (if ph \<in> set ks \<and> ph \<noteq> row
      then map (\<lambda>k. if k = ph then row else k) (remove1 row ks)
      else ks)"

text \<open>\<open>document.createElement\<close>: a reference no child of the list has.\<close>

definition createElement :: "world \<Rightarrow> ref" where
  "createElement w = Suc (fold max (kids w) 0)"

subsection \<open>Layout and pointer events, given by the browser\<close>

text \<open>
  The rectangles \<open>getBoundingClientRect\<close> returns depend on the page as it is when the call
  is made; the browser's layout is a parameter, a function of the current state.
  \<open>scrollLimit\<close> is \<open>scrollHeight - clientHeight\<close>: an assignment to \<open>scrollTop\<close> is
  clamped by the browser to the range from 0 to this limit.  \<open>num\<close> is the host's rounding
  of the exact result of an arithmetic operation to a JavaScript number (a binary64
  double); the properties below hold whatever this rounding is.
\<close>

record layout =
  listRect :: "world \<Rightarrow> rect"
  nodeRect :: "world \<Rightarrow> ref \<Rightarrow> rect"
  scrollLimit :: "world \<Rightarrow> real"
  num :: "real \<Rightarrow> real"

text \<open>The operators \<open>a + b\<close>, \<open>a - b\<close> and \<open>a / 2\<close> on JavaScript numbers.\<close>

definition js_plus :: "layout \<Rightarrow> real \<Rightarrow> real \<Rightarrow> real" where
  "js_plus lay a b = num lay (a + b)"

definition js_minus :: "layout \<Rightarrow> real \<Rightarrow> real \<Rightarrow> real" where
  "js_minus lay a b = num lay (a - b)"

definition js_half :: "layout \<Rightarrow> real \<Rightarrow> real" where
  "js_half lay a = num lay (a / 2)"

record pointer =
  clientX :: real
  clientY :: real

definition set_scrollTop :: "layout \<Rightarrow> real \<Rightarrow> world \<Rightarrow> world" where
  "set_scrollTop lay v w = w\<lparr>scrollTop := max 0 (min v (scrollLimit lay w))\<rparr>"

subsection \<open>The drag session: \<open>#down\<close>, \<open>#move\<close>, \<open>#up\<close>\<close>

definition classList_add :: "string \<Rightarrow> string list \<Rightarrow> string list" where
  "classList_add c cs = (if c \<in> set cs then cs else cs @ [c])"

definition classList_remove :: "string \<Rightarrow> string list \<Rightarrow> string list" where
  "classList_remove c cs = removeAll c cs"

text \<open>
  \<open>#down(e,row)\<close>: the placeholder is a new \<open>div\<close> of the row's height, put before the row;
  the row is fixed over its own rectangle; the session and both handlers are installed.
\<close>

definition down :: "layout \<Rightarrow> pointer \<Rightarrow> ref \<Rightarrow> world \<Rightarrow> world" where
  "down lay e row w =
     (let rect = nodeRect lay w row;
          ph = createElement w;
          phElem = blank_elem\<lparr>classList := [CLASSES_placeholder],
                              inline := no_style\<lparr>css_height := Some (r_height rect)\<rparr>\<rparr>;
          rowElem = (heap w row)
             \<lparr>classList := classList_add CLASSES_dragging (classList (heap w row)),
              inline := (inline (heap w row))
                 \<lparr>css_width := Some (r_width rect), css_position := ''fixed'',
                  css_zIndex := Some 999, css_left := Some (r_left rect),
                  css_top := Some (r_top rect), css_pointerEvents := ''none''\<rparr>\<rparr>
      in w\<lparr>kids := before row ph (kids w),
            heap := (heap w)(ph := phElem, row := rowElem),
            drag := Some \<lparr>d_row = row, d_list = (row \<in> set (kids w)), d_ph = ph,
                          d_offX = js_minus lay (clientX e) (r_left rect),
                          d_offY = js_minus lay (clientY e) (r_top rect),
                          d_edge = DRAG_edgeDistance\<rparr>,
            onpointermove := True,
            onpointerup := True\<rparr>)"

text \<open>
  The auto-scroll step of \<open>#move\<close>:
  \<open>if(e.clientY < r.top + edge) list.scrollTop -= edge;
  else if(e.clientY > r.bottom - edge) list.scrollTop += edge;\<close>
\<close>

definition autoScroll :: "layout \<Rightarrow> pointer \<Rightarrow> real \<Rightarrow> world \<Rightarrow> world" where
  "autoScroll lay e edge w =
     (let r = listRect lay w
      in if clientY e < js_plus lay (r_top r) edge
         then set_scrollTop lay (js_minus lay (scrollTop w) edge) w
         else if clientY e > js_minus lay (r_bottom r) edge
         then set_scrollTop lay (js_plus lay (scrollTop w) edge) w
         else w)"

text \<open>The rows \<open>#move\<close> scans: \<open>[...list.querySelectorAll(row)].filter(i => i !== row)\<close>.\<close>

definition candidates :: "ref \<Rightarrow> world \<Rightarrow> ref list" where
  "candidates row w = filter (\<lambda>i. i \<noteq> row) (rows w)"

text \<open>The test of the \<open>some\<close> callback: \<open>e.clientY > ir.top && e.clientY < ir.bottom\<close>.\<close>

definition contains :: "layout \<Rightarrow> pointer \<Rightarrow> world \<Rightarrow> ref \<Rightarrow> bool" where
  "contains lay e w item =
     (r_top (nodeRect lay w item) < clientY e \<and> clientY e < r_bottom (nodeRect lay w item))"

text \<open>The test that chooses the side: \<open>e.clientY < ir.top + ir.height/2\<close>.\<close>

definition upperHalf :: "layout \<Rightarrow> pointer \<Rightarrow> world \<Rightarrow> ref \<Rightarrow> bool" where
  "upperHalf lay e w item =
     (clientY e < js_plus lay (r_top (nodeRect lay w item))
                              (js_half lay (r_height (nodeRect lay w item))))"

text \<open>The row \<open>some\<close> stops at: the first of the scanned rows whose test succeeds.\<close>

definition target :: "layout \<Rightarrow> pointer \<Rightarrow> session \<Rightarrow> world \<Rightarrow> ref option" where
  "target lay e d w = find (contains lay e w) (candidates (d_row d) w)"

text \<open>
  The placeholder step of \<open>#move\<close>:
  \<open>e.clientY < ir.top + ir.height/2 ? item.before(ph) : item.after(ph)\<close> for that row,
  and nothing when no test succeeds.
\<close>

definition reposition :: "layout \<Rightarrow> pointer \<Rightarrow> session \<Rightarrow> world \<Rightarrow> world" where
  "reposition lay e d w =
     (case target lay e d w of
        None \<Rightarrow> w
      | Some item \<Rightarrow>
          if upperHalf lay e w item then w\<lparr>kids := before item (d_ph d) (kids w)\<rparr>
          else w\<lparr>kids := after item (d_ph d) (kids w)\<rparr>)"

text \<open>
  The first two assignments of \<open>#move\<close>: the row follows the pointer,
  \<open>row.style.left = `${e.clientX-offX}px`\<close> and likewise for \<open>top\<close>.
\<close>

definition follow :: "layout \<Rightarrow> pointer \<Rightarrow> session \<Rightarrow> world \<Rightarrow> world" where
  "follow lay e d w =
     w\<lparr>heap := (heap w)(d_row d := (heap w (d_row d))
           \<lparr>inline := (inline (heap w (d_row d)))
               \<lparr>css_left := Some (js_minus lay (clientX e) (d_offX d)),
                css_top := Some (js_minus lay (clientY e) (d_offY d))\<rparr>\<rparr>)\<rparr>"

text \<open>
  \<open>#move(e)\<close>.  With an empty \<open>drag\<close> object \<open>row\<close> is \<open>undefined\<close> and \<open>row.style\<close> throws;
  with \<open>list\<close> being \<open>null\<close> the call \<open>list.getBoundingClientRect()\<close> throws after the row
  has been positioned.  The row rectangles are read after the scroll offset has been set.
\<close>

definition move :: "layout \<Rightarrow> pointer \<Rightarrow> world \<Rightarrow> world \<times> error option" where
  "move lay e w =
     (case drag w of
        None \<Rightarrow> (w, Some TypeError)
      | Some d \<Rightarrow>
          if \<not> d_list d then (follow lay e d w, Some TypeError)
          else (reposition lay e d (autoScroll lay e (d_edge d) (follow lay e d w)), None))"

text \<open>
  \<open>#up()\<close>.  The same two throws as in \<open>#move\<close> are possible: \<open>ph.replaceWith\<close> on
  \<open>undefined\<close>, and \<open>list.querySelectorAll\<close> on \<open>null\<close> inside \<open>#save\<close>, which is reached
  after the row has been put back and its styles reset.
\<close>

definition up :: "world \<Rightarrow> world \<times> error option" where
  "up w =
     (case drag w of
        None \<Rightarrow> (w, Some TypeError)
      | Some d \<Rightarrow>
          (let rowElem = (heap w (d_row d))
                 \<lparr>classList := classList_remove CLASSES_dragging (classList (heap w (d_row d))),
                  inline := (inline (heap w (d_row d)))
                     \<lparr>css_position := [], css_left := None, css_top := None,
                      css_width := None, css_pointerEvents := []\<rparr>\<rparr>;
               w1 = w\<lparr>kids := replaceWith (d_ph d) (d_row d) (kids w),
                      heap := (heap w)(d_row d := rowElem)\<rparr>
           in if \<not> d_list d then (w1, Some TypeError)
              else ((save w1)\<lparr>drag := None, onpointermove := False, onpointerup := False\<rparr>,
                    None)))"

text \<open>
  The document dispatches a pointer event to the handler that is installed; with
  \<open>document.onpointermove = null\<close> nothing runs.
\<close>

definition pointermove :: "layout \<Rightarrow> pointer \<Rightarrow> world \<Rightarrow> world \<times> error option" where
  "pointermove lay e w = (if onpointermove w then move lay e w else (w, None))"

definition pointerup :: "world \<Rightarrow> world \<times> error option" where
  "pointerup w = (if onpointerup w then up w else (w, None))"

text \<open>A run of move events of one drag, each with the layout the browser has at that time.\<close>

fun moves :: "(layout \<times> pointer) list \<Rightarrow> world \<Rightarrow> world" where
  "moves [] w = w"
| "moves ((lay, e) # es) w = moves es (fst (pointermove lay e w))"

subsection \<open>Notions the properties are stated with\<close>

text \<open>The rows that the names of a saved order find in the map, in the order of the names.\<close>

definition matched :: "world \<Rightarrow> string list \<Rightarrow> ref list" where
  "matched w S = List.map_filter (nameMap w) S"

text \<open>The children of the list that carry the placeholder class.\<close>

definition placeholders :: "world \<Rightarrow> ref list" where
  "placeholders w = filter (\<lambda>k. CLASSES_placeholder \<in> set (classList (heap w k))) (kids w)"

text \<open>The names of the rows in DOM order, as \<open>#save\<close> and \<open>#applySaved\<close> read them.\<close>

definition domNames :: "world \<Rightarrow> string option list" where
  "domNames w = map (rowName w) (rows w)"

text \<open>\<open>this.store.save(order)\<close> for an array \<open>order\<close> of names.\<close>

definition storeOrder :: "string list \<Rightarrow> world \<Rightarrow> world" where
  "storeOrder S w = w\<lparr>localStorage := Store_save STORAGE_KEY (JArr (map JStr S)) (localStorage w)\<rparr>"

text \<open>
  The state in which \<open>#move\<close> scans the rows: the dragged row positioned and the list
  scrolled.
\<close>

definition scanned :: "layout \<Rightarrow> pointer \<Rightarrow> session \<Rightarrow> world \<Rightarrow> world" where
  "scanned lay e d w = autoScroll lay e (d_edge d) (follow lay e d w)"

text \<open>What \<open>#grip\<close> makes of a row.\<close>

definition gripped :: "elem \<Rightarrow> elem" where
  "gripped el =
     (if hasHandle el then el
      else el\<lparr>hasHandle := True, handles := (if hasWrap el then Suc (handles el) else handles el)\<rparr>)"

subsection \<open>Example states\<close>

definition named_row :: "string \<Rightarrow> elem" where
  "named_row n = blank_elem\<lparr>menuitem := True, truncateText := Some n, hasWrap := True\<rparr>"

definition example_list :: "ref list \<Rightarrow> (ref \<Rightarrow> elem) \<Rightarrow> storage \<Rightarrow> world" where
  "example_list ks h ls = \<lparr>kids = ks, heap = h, sortAttach = False, scrollTop = 0,
     localStorage = ls, drag = None, onpointermove = False, onpointerup = False\<rparr>"

text \<open>Rows A, B; the stored order names X and A.\<close>

definition example_AB :: world where
  "example_AB = example_list [1, 2]
     ((\<lambda>_. blank_elem)(1 := named_row ''A'', 2 := named_row ''B''))
     [STORAGE_KEY \<mapsto> Json (JArr [JStr ''X'', JStr ''A''])]"

text \<open>Rows A, B, C and nothing stored.\<close>

definition example_ABC :: world where
  "example_ABC = example_list [1, 2, 3]
     ((\<lambda>_. blank_elem)(1 := named_row ''A'', 2 := named_row ''B'', 3 := named_row ''C''))
     Map.empty"

text \<open>Rows A to E and nothing stored.\<close>

definition example_ABCDE :: world where
  "example_ABCDE = example_list [1, 2, 3, 4, 5]
     ((\<lambda>_. blank_elem)(1 := named_row ''A'', 2 := named_row ''B'', 3 := named_row ''C'',
        4 := named_row ''D'', 5 := named_row ''E''))
     Map.empty"

text \<open>
  The rounding of the examples: binary64, that is 53 significant bits, round to nearest
  with ties to even, the smallest exponent -1022 (below it the spacing stays
  \<open>2 powr - 1074\<close>); a result beyond the largest double is \<open>Infinity\<close>, for which
  \<open>2 powr 1024\<close> stands in a comparison.
\<close>

definition rne :: "real \<Rightarrow> int" where
  "rne q =
     (let f = \<lfloor>q\<rfloor>
      in if q - of_int f < 1 / 2 then f
         else if q - of_int f > 1 / 2 then f + 1
         else if even f then f else f + 1)"

definition binary64 :: "real \<Rightarrow> real" where
  "binary64 x =
     (if x = 0 then 0
      else let e = max \<lfloor>log 2 \<bar>x\<bar>\<rfloor> (- 1022);
               u = 2 powr (of_int e - 52);
               r = of_int (rne (x / u)) * u
           in if 2 powr 1024 \<le> \<bar>r\<bar> then sgn x * 2 powr 1024 else r)"

text \<open>
  A layout for the examples: a list of height \<open>H\<close> at the top of the viewport, its children
  in normal flow stacked 36 pixels each and shifted by the scroll offset, a child with
  \<open>position: fixed\<close> where its inline \<open>left\<close> and \<open>top\<close> put it.
\<close>

definition inFlow :: "world \<Rightarrow> ref \<Rightarrow> bool" where
  "inFlow w k = (css_position (inline (heap w k)) \<noteq> ''fixed'')"

definition flowTop :: "world \<Rightarrow> ref \<Rightarrow> real" where
  "flowTop w k =
     36 * real (length (takeWhile (\<lambda>x. x \<noteq> k) (filter (inFlow w) (kids w)))) - scrollTop w"

definition px :: "real option \<Rightarrow> real" where
  "px v = (case v of None \<Rightarrow> 0 | Some x \<Rightarrow> x)"

definition flow_layout :: "real \<Rightarrow> layout" where
  "flow_layout H =
     \<lparr>listRect = (\<lambda>w. \<lparr>r_left = 0, r_top = 0, r_width = 200, r_height = H, r_bottom = H\<rparr>),
      nodeRect = (\<lambda>w k. if inFlow w k
                          then \<lparr>r_left = 0, r_top = flowTop w k, r_width = 200, r_height = 36,
                                r_bottom = flowTop w k + 36\<rparr>
                          else \<lparr>r_left = px (css_left (inline (heap w k))),
                                r_top = px (css_top (inline (heap w k))),
                                r_width = 200, r_height = 36,
                                r_bottom = px (css_top (inline (heap w k))) + 36\<rparr>),
      scrollLimit = (\<lambda>w. max 0 (36 * real (length (filter (inFlow w) (kids w))) - H)),
      num = binary64\<rparr>"

text \<open>
  A layout with fractional bounds, each the double nearest to the decimal named: the list
  from 0.3 to 500, every child from 0.1 over a height of 1.4.
\<close>

definition fractional_layout :: layout where
  "fractional_layout =
     \<lparr>listRect = (\<lambda>w. \<lparr>r_left = 0, r_top = 5404319552844595 / 2 ^ 54, r_width = 200,
                        r_height = 500, r_bottom = 500\<rparr>),
      nodeRect = (\<lambda>w k. \<lparr>r_left = 0, r_top = 3602879701896397 / 2 ^ 55, r_width = 200,
                          r_height = 3152519739159347 / 2 ^ 51, r_bottom = 3 / 2\<rparr>),
      scrollLimit = (\<lambda>w. 100),
      num = binary64\<rparr>"

text \<open>
  Row C of the five rows picked up at its handle, the list being 60 pixels high and
  scrolled by 40 pixels (row C then lies from 32 to 68 pixels below the top of the list).
\<close>

definition example_drag :: world where
  "example_drag =
     down (flow_layout 60) \<lparr>clientX = 10, clientY = 50\<rparr> 3 (example_ABCDE\<lparr>scrollTop := 40\<rparr>)"

text \<open>
  Row B of the five rows picked up at its handle, the list being 100 pixels high and not
  scrolled (row B lies from 36 to 72 pixels below the top of the list; the list can scroll
  by 80 pixels).
\<close>

definition example_drag_top :: world where
  "example_drag_top = down (flow_layout 100) \<lparr>clientX = 10, clientY = 50\<rparr> 2 example_ABCDE"

text \<open>
  Two pointer-downs with no pointer-up between them: row A of the three rows is picked up
  at its handle, and then, the first drag still open, row B at its own (the list 200
  pixels high; row B lies from 36 to 72 pixels once A is out of the flow).
\<close>

definition example_two_downs :: world where
  "example_two_downs =
     down (flow_layout 200) \<lparr>clientX = 10, clientY = 50\<rparr> 2
       (down (flow_layout 200) \<lparr>clientX = 10, clientY = 10\<rparr> 1 example_ABC)"


section \<open>Restoring the saved order\<close>

lemmas example_defs =
  example_AB_def example_ABC_def example_ABCDE_def example_list_def named_row_def
  blank_elem_def no_style_def STORAGE_KEY_def

lemmas restore_defs =
  applySaved_def Store_get_def Store_save_def JSON_parse_def JSON_stringify_def
  truthy_prop_def nameMap_def rows_def setName_def rowName_def trim_def isWhiteSpace_def
  appendChild_def

subsection \<open>The map from names to rows\<close>

lemma setName_apply:
  "setName w a m n = (if rowName w a = Some n \<and> n \<noteq> [] then Some a else m n)"
  by (auto simp: setName_def split: option.splits)

lemma fold_setName_sound:
  "fold (setName w) rs m0 n = Some r
   \<Longrightarrow> m0 n = Some r \<or> (r \<in> set rs \<and> rowName w r = Some n \<and> n \<noteq> [])"
proof (induction rs arbitrary: m0)
  case Nil
  then show ?case by simp
next
  case (Cons a rs)
  from Cons.prems have "fold (setName w) rs (setName w a m0) n = Some r" by simp
  from Cons.IH [OF this]
  have "setName w a m0 n = Some r \<or> (r \<in> set rs \<and> rowName w r = Some n \<and> n \<noteq> [])" .
  then show ?case by (auto simp: setName_apply split: if_splits)
qed

lemma fold_setName_keeps:
  "m0 n \<noteq> None \<Longrightarrow> fold (setName w) rs m0 n \<noteq> None"
  by (induction rs arbitrary: m0) (simp_all add: setName_apply)

lemma fold_setName_complete:
  "r \<in> set rs \<Longrightarrow> rowName w r = Some n \<Longrightarrow> n \<noteq> [] \<Longrightarrow> fold (setName w) rs m0 n \<noteq> None"
proof (induction rs arbitrary: m0)
  case Nil
  then show ?case by simp
next
  case (Cons a rs)
  show ?case
  proof (cases "r \<in> set rs")
    case True
    then show ?thesis using Cons by simp
  next
    case False
    then have "a = r" using Cons.prems by simp
    then have "setName w a m0 n \<noteq> None" using Cons.prems by (simp add: setName_apply)
    then show ?thesis by (simp add: fold_setName_keeps)
  qed
qed

lemma nameMap_sound:
  "nameMap w n = Some r \<Longrightarrow> r \<in> set (rows w) \<and> rowName w r = Some n \<and> n \<noteq> []"
  unfolding nameMap_def using fold_setName_sound [of w "rows w" Map.empty n r] by simp

lemma nameMap_complete:
  "r \<in> set (rows w) \<Longrightarrow> rowName w r = Some n \<Longrightarrow> n \<noteq> [] \<Longrightarrow> nameMap w n \<noteq> None"
  unfolding nameMap_def by (rule fold_setName_complete)

lemma rows_subset_kids: "set (rows w) \<subseteq> set (kids w)"
  by (auto simp: rows_def)

subsection \<open>Moving rows to the end keeps the children\<close>

lemma restoreStep_mset:
  "(\<And>n r. m n = Some r \<Longrightarrow> r \<in> set ks) \<Longrightarrow> mset (restoreStep m v ks) = mset ks"
  by (cases v) (auto simp: appendChild_def split: option.splits)

lemma fold_restoreStep_mset:
  "(\<And>n r. m n = Some r \<Longrightarrow> r \<in> set ks) \<Longrightarrow> mset (fold (restoreStep m) vs ks) = mset ks"
proof (induction vs arbitrary: ks)
  case Nil
  then show ?case by simp
next
  case (Cons v vs)
  have eq: "mset (restoreStep m v ks) = mset ks"
    using Cons.prems by (rule restoreStep_mset)
  then have "set (restoreStep m v ks) = set ks"
    by (rule mset_eq_setD)
  then have "mset (fold (restoreStep m) vs (restoreStep m v ks)) = mset (restoreStep m v ks)"
    using Cons.prems by (intro Cons.IH) simp
  then show ?case using eq by simp
qed

lemma applySaved_kids_mset: "mset (kids (fst (applySaved w))) = mset (kids w)"
proof -
  have "\<And>n r. nameMap w n = Some r \<Longrightarrow> r \<in> set (kids w)"
    using nameMap_sound rows_subset_kids by blast
  then have "\<And>vs. mset (fold (restoreStep (nameMap w)) vs (kids w)) = mset (kids w)"
    by (rule fold_restoreStep_mset)
  then show ?thesis
    by (simp add: applySaved_def split: sum.splits json.splits)
qed

lemma applySaved_heap: "heap (fst (applySaved w)) = heap w"
  by (simp add: applySaved_def split: sum.splits json.splits)

text \<open>
  Claim C9.  Whatever is stored under the order key and whatever the list holds,
  \<open>#applySaved\<close> only moves children of the container: the multiset of the children after
  the call (also after a call that throws) is the multiset before it, and so is the
  multiset of the rows; no element is changed.  No row is added, removed or duplicated.
\<close>

theorem applySaved_preserves_rows:
  "mset (kids (fst (applySaved w))) = mset (kids w)
   \<and> mset (rows (fst (applySaved w))) = mset (rows w)
   \<and> heap (fst (applySaved w)) = heap w"
proof -
  have "mset (rows (fst (applySaved w)))
      = filter_mset (\<lambda>k. menuitem (heap w k)) (mset (kids (fst (applySaved w))))"
    by (simp add: rows_def applySaved_heap)
  then have "mset (rows (fst (applySaved w))) = mset (rows w)"
    by (simp add: applySaved_kids_mset rows_def)
  then show ?thesis
    by (simp add: applySaved_kids_mset applySaved_heap)
qed

subsection \<open>The order after a restore\<close>

lemma appendChild_filter:
  "distinct ks \<Longrightarrow> appendChild el ks = filter (\<lambda>k. k \<noteq> el) ks @ [el]"
  by (simp add: appendChild_def distinct_remove1_removeAll removeAll_filter_not_eq) metis

lemma fold_appendChild:
  "distinct ks \<Longrightarrow> fold appendChild ms ks = filter (\<lambda>k. k \<notin> set ms) ks @ remdups ms"
proof (induction ms arbitrary: ks)
  case Nil
  then show ?case by simp
next
  case (Cons m ms)
  have d: "distinct (filter (\<lambda>k. k \<noteq> m) ks @ [m])"
    using Cons.prems by auto
  have "fold appendChild (m # ms) ks = fold appendChild ms (filter (\<lambda>k. k \<noteq> m) ks @ [m])"
    using Cons.prems by (simp add: appendChild_filter)
  also have "\<dots> = filter (\<lambda>k. k \<notin> set ms) (filter (\<lambda>k. k \<noteq> m) ks @ [m]) @ remdups ms"
    using d by (rule Cons.IH)
  also have "\<dots> = filter (\<lambda>k. k \<notin> set (m # ms)) ks @ remdups (m # ms)"
    by (auto intro: filter_cong)
  finally show ?case .
qed

lemma fold_restoreStep_names:
  "fold (restoreStep m) (map JStr S) ks = fold appendChild (List.map_filter m S) ks"
  by (induction S arbitrary: ks) (simp_all add: map_filter_simps split: option.splits)

lemma Store_get_saved:
  "ls STORAGE_KEY = Some (JSON_stringify v) \<Longrightarrow> Store_get STORAGE_KEY ls = Inr v"
  by (simp add: Store_get_def JSON_stringify_def JSON_parse_def)

lemma applySaved_names:
  assumes "distinct (kids w)"
    and "localStorage w STORAGE_KEY = Some (JSON_stringify (JArr (map JStr S)))"
  shows "applySaved w =
           (w\<lparr>kids := filter (\<lambda>k. k \<notin> set (matched w S)) (kids w) @ remdups (matched w S)\<rparr>, None)"
proof (cases S)
  case Nil
  then show ?thesis
    using assms(2)
    by (simp add: applySaved_def Store_get_saved truthy_prop_def matched_def map_filter_simps)
next
  case (Cons n ns)
  then have "applySaved w =
      (w\<lparr>kids := fold (restoreStep (nameMap w)) (map JStr S) (kids w)\<rparr>, None)"
    using assms(2) by (simp add: applySaved_def Store_get_saved truthy_prop_def)
  then show ?thesis
    using assms(1) by (simp add: fold_restoreStep_names fold_appendChild matched_def)
qed

lemma matched_rows: "set (matched w S) \<subseteq> set (rows w)"
  using nameMap_sound by (fastforce simp: matched_def map_filter_def)

lemma matched_iff: "r \<in> set (matched w S) \<longleftrightarrow> (\<exists>n\<in>set S. nameMap w n = Some r)"
  by (force simp: matched_def map_filter_def)

lemma rows_reordered:
  "rows (w\<lparr>kids := filter (\<lambda>k. k \<notin> set (matched w S)) (kids w) @ remdups (matched w S)\<rparr>)
     = filter (\<lambda>k. k \<notin> set (matched w S)) (rows w) @ remdups (matched w S)"
proof -
  have "filter (\<lambda>k. menuitem (heap w k)) (remdups (matched w S)) = remdups (matched w S)"
    using matched_rows [of w S] by (auto simp: rows_def filter_id_conv)
  then show ?thesis
    by (simp add: rows_def conj_commute)
qed

lemma rows_localStorage [simp]: "rows (w\<lparr>localStorage := x\<rparr>) = rows w"
  by (simp add: rows_def)

lemma rowName_localStorage [simp]: "rowName (w\<lparr>localStorage := x\<rparr>) = rowName w"
  by (simp add: rowName_def fun_eq_iff)

lemma rowName_kids [simp]: "rowName (w\<lparr>kids := x\<rparr>) = rowName w"
  by (simp add: rowName_def fun_eq_iff)

lemma setName_localStorage [simp]: "setName (w\<lparr>localStorage := x\<rparr>) = setName w"
  by (simp add: setName_def fun_eq_iff)

lemma nameMap_localStorage [simp]: "nameMap (w\<lparr>localStorage := x\<rparr>) = nameMap w"
  by (simp add: nameMap_def)

lemma matched_localStorage [simp]: "matched (w\<lparr>localStorage := x\<rparr>) = matched w"
  by (simp add: matched_def fun_eq_iff)

lemma storeOrder_frame [simp]:
  "kids (storeOrder S w) = kids w" "rows (storeOrder S w) = rows w"
  "rowName (storeOrder S w) = rowName w" "matched (storeOrder S w) = matched w"
  "localStorage (storeOrder S w) STORAGE_KEY = Some (JSON_stringify (JArr (map JStr S)))"
  by (simp_all add: storeOrder_def Store_save_def)

lemma map_filter_total:
  "list_all (\<lambda>n. m n \<noteq> None) S \<Longrightarrow> List.map_filter m S = map (\<lambda>n. the (m n)) S"
  by (induction S) (auto simp: map_filter_simps)

text \<open>
  Claim C3, as the code has it.  For every saved order \<open>S\<close> and every list, \<open>#applySaved\<close>
  completes, and afterwards the children that no name of \<open>S\<close> finds come first, in the
  order they had, followed by the rows the names of \<open>S\<close> find, in the order of \<open>S\<close> (a row
  named more than once in \<open>S\<close> at the place of its last mention).  The same holds of the
  rows alone.  The rows named in \<open>S\<close> are moved to the end; they do not come first.
\<close>

theorem applySaved_order:
  assumes "distinct (kids w)"
    and "localStorage w STORAGE_KEY = Some (JSON_stringify (JArr (map JStr S)))"
  shows "snd (applySaved w) = None
       \<and> kids (fst (applySaved w))
           = filter (\<lambda>k. k \<notin> set (matched w S)) (kids w) @ remdups (matched w S)
       \<and> rows (fst (applySaved w))
           = filter (\<lambda>r. r \<notin> set (matched w S)) (rows w) @ remdups (matched w S)"
  using rows_reordered [of w S] by (simp add: applySaved_names [OF assms])

theorem applySaved_order_witness:
  "distinct (kids example_AB)
   \<and> localStorage example_AB STORAGE_KEY = Some (JSON_stringify (JArr (map JStr [''X'', ''A''])))
   \<and> matched example_AB [''X'', ''A''] = [1]
   \<and> snd (applySaved example_AB) = None
   \<and> kids (fst (applySaved example_AB)) = [2, 1]
   \<and> rows (fst (applySaved example_AB)) = [2, 1]"
proof -
  have d: "distinct (kids example_AB)"
    by (simp add: example_defs)
  have st: "localStorage example_AB STORAGE_KEY = Some (JSON_stringify (JArr (map JStr [''X'', ''A''])))"
    by (simp add: example_defs JSON_stringify_def)
  have m: "matched example_AB [''X'', ''A''] = [1]"
    by (simp add: matched_def map_filter_simps example_defs restore_defs)
  have k: "kids example_AB = [1, 2]" "rows example_AB = [1, 2]"
    by (simp_all add: example_defs rows_def)
  show ?thesis
    using applySaved_order [OF d st] d st m by (simp add: k)
qed

text \<open>
  The scenario of claim C3: the stored order is \<open>["X","A"]\<close>, the list has the rows A, B
  and no row X.  Row A is found and appended, so the DOM order becomes B, A, not A, B.
\<close>

theorem applySaved_XA_counterexample:
  "domNames (fst (applySaved example_AB)) \<noteq> [Some ''A'', Some ''B'']
   \<and> domNames (fst (applySaved example_AB)) = [Some ''B'', Some ''A'']"
  by (simp add: domNames_def example_defs restore_defs)

text \<open>
  Claim C1.  Let \<open>S\<close> be a sequence of distinct display names; a display name is a
  non-empty string, since \<open>#save\<close> drops every row whose name is empty or missing and
  \<open>#applySaved\<close> never enters such a row in its map.  Store \<open>S\<close> with \<open>Store.save\<close> and run
  \<open>#applySaved\<close> on a list whose rows carry exactly the names of \<open>S\<close>, in any order: the
  call completes and the rows, read in DOM order, are named \<open>S\<close>.
\<close>

theorem save_restore_roundtrip:
  assumes dS: "distinct S" and ne: "[] \<notin> set S" and dk: "distinct (kids w)"
    and names: "mset (domNames w) = mset (map Some S)"
  shows "snd (applySaved (storeOrder S w)) = None
       \<and> domNames (fst (applySaved (storeOrder S w))) = map Some S"
proof -
  let ?w = "storeOrder S w"
  let ?M = "matched w S"
  have run: "applySaved ?w = (?w\<lparr>kids := filter (\<lambda>k. k \<notin> set ?M) (kids w) @ remdups ?M\<rparr>, None)"
    using applySaved_names [of ?w S] dk by simp
  have "set (map (rowName w) (rows w)) = set (map Some S)"
    using names unfolding domNames_def by (rule mset_eq_setD)
  then have set_eq: "rowName w ` set (rows w) = Some ` set S"
    by simp
  have "distinct (map (rowName w) (rows w)) = distinct (map Some S)"
    using names unfolding domNames_def by (rule mset_eq_imp_distinct_iff)
  then have dn: "inj_on (rowName w) (set (rows w))"
    using dS by (simp add: distinct_map)
  have named: "\<exists>n\<in>set S. rowName w r = Some n" if "r \<in> set (rows w)" for r
  proof -
    have "rowName w r \<in> rowName w ` set (rows w)" using that by (rule imageI)
    then show ?thesis unfolding set_eq by blast
  qed
  have found: "nameMap w n \<noteq> None" if "n \<in> set S" for n
  proof -
    have "Some n \<in> rowName w ` set (rows w)" unfolding set_eq using that by (rule imageI)
    then obtain r where "r \<in> set (rows w)" "rowName w r = Some n" by (auto simp: image_iff)
    moreover have "n \<noteq> []" using that ne by blast
    ultimately show ?thesis by (rule nameMap_complete)
  qed
  then have M: "?M = map (\<lambda>n. the (nameMap w n)) S"
    unfolding matched_def by (intro map_filter_total) (simp add: list_all_iff)
  have nm: "rowName w (the (nameMap w n)) = Some n" if "n \<in> set S" for n
    using found [OF that] nameMap_sound [of w n "the (nameMap w n)"] by simp
  then have namesM: "map (rowName w) ?M = map Some S"
    by (simp add: M)
  have "distinct (map (rowName w) ?M)"
    unfolding namesM using dS by (simp add: distinct_map)
  then have dM: "distinct ?M"
    by (simp add: distinct_map)
  have all: "r \<in> set ?M" if r: "r \<in> set (rows w)" for r
  proof -
    from named [OF r] obtain n where n: "n \<in> set S" "rowName w r = Some n" by blast
    let ?r' = "the (nameMap w n)"
    have "nameMap w n = Some ?r'" using found [OF n(1)] by simp
    then have r': "?r' \<in> set (rows w)"
      using nameMap_sound by blast
    have eq: "rowName w ?r' = rowName w r" using nm [OF n(1)] n(2) by simp
    have "?r' = r"
      using dn eq r' r by (rule inj_onD)
    then have "r = (\<lambda>n. the (nameMap w n)) n" by simp
    then show ?thesis unfolding M using n(1) by (simp add: image_iff) blast
  qed
  then have "filter (\<lambda>k. k \<notin> set ?M) (rows w) = []"
    by (simp add: filter_empty_conv)
  then have "rows (fst (applySaved ?w)) = ?M"
    using rows_reordered [of ?w S] dM by (simp add: run)
  then show ?thesis
    using namesM by (simp add: run domNames_def)
qed

theorem save_restore_roundtrip_witness:
  "distinct [''C'', ''A'', ''B''] \<and> [] \<notin> set [''C'', ''A'', ''B''] \<and> distinct (kids example_ABC)
   \<and> mset (domNames example_ABC) = mset (map Some [''C'', ''A'', ''B''])
   \<and> domNames example_ABC = [Some ''A'', Some ''B'', Some ''C'']
   \<and> snd (applySaved (storeOrder [''C'', ''A'', ''B''] example_ABC)) = None
   \<and> domNames (fst (applySaved (storeOrder [''C'', ''A'', ''B''] example_ABC)))
       = [Some ''C'', Some ''A'', Some ''B'']"
proof -
  have a: "distinct [''C'', ''A'', ''B'']" "[] \<notin> set [''C'', ''A'', ''B'']"
    by simp_all
  have d: "distinct (kids example_ABC)"
    by (simp add: example_defs)
  have n: "domNames example_ABC = [Some ''A'', Some ''B'', Some ''C'']"
    by (simp add: domNames_def example_defs restore_defs)
  have m: "mset (domNames example_ABC) = mset (map Some [''C'', ''A'', ''B''])"
    by (simp add: n)
  show ?thesis
    using save_restore_roundtrip [OF a d m] a d m n by simp
qed

subsection \<open>A stored value that is not JSON\<close>

text \<open>
  Claim C2.  \<open>Store.get\<close> falls back to \<open>'[]'\<close> only for a missing item and for the empty
  string.  Any other string that is not JSON makes \<open>JSON.parse\<close> throw, nothing in
  \<open>Store.get\<close>, \<open>#applySaved\<close> or \<open>#init\<close> catches, and the \<open>SyntaxError\<close> leaves the restore
  routine: for every list whose stored value is such a string, \<open>#applySaved\<close> ends with
  the error (the list itself untouched).
\<close>

theorem applySaved_corrupt_throws:
  "applySaved (w\<lparr>localStorage := (localStorage w)(STORAGE_KEY \<mapsto> Corrupt)\<rparr>)
     = (w\<lparr>localStorage := (localStorage w)(STORAGE_KEY \<mapsto> Corrupt)\<rparr>, Some SyntaxError)"
  by (simp add: applySaved_def Store_get_def JSON_parse_def)

text \<open>
  The other stored values that are no array: the children keep their order, and the call
  raises exactly when the value is \<open>null\<close> (no property can be read) or has a truthy
  \<open>length\<close> (a non-empty string, an object with such a key) but no \<open>forEach\<close>.
\<close>

lemma applySaved_not_array:
  assumes "localStorage w STORAGE_KEY = Some (Json v)" and "\<And>vs. v \<noteq> JArr vs"
  shows "fst (applySaved w) = w"
    and "snd (applySaved w) =
           (case js_length v of
              Inl e \<Rightarrow> Some e
            | Inr len \<Rightarrow> if truthy_prop len then Some TypeError else None)"
  using assms
  by (cases v; simp add: applySaved_def Store_get_def JSON_parse_def split: sum.splits)+

lemma applySaved_missing:
  "localStorage w STORAGE_KEY = None \<or> localStorage w STORAGE_KEY = Some Blank
   \<Longrightarrow> applySaved w = (w, None)"
  by (auto simp: applySaved_def Store_get_def JSON_parse_def truthy_prop_def)


section \<open>Attaching a list\<close>

lemma grip_frame [simp]:
  "kids (grip r w) = kids w" "sortAttach (grip r w) = sortAttach w"
  "menuitem (heap (grip r w) k) = menuitem (heap w k)"
  by (simp_all add: grip_def)

lemma rows_grip [simp]: "rows (grip r w) = rows w"
  by (simp add: rows_def)

lemma heap_grip: "heap (grip r w) k = (if k = r then gripped (heap w k) else heap w k)"
  by (simp add: grip_def gripped_def)

lemma gripped_gripped [simp]: "gripped (gripped el) = gripped el"
  by (simp add: gripped_def)

lemma fold_grip_frame [simp]:
  "kids (fold grip rs w) = kids w" "sortAttach (fold grip rs w) = sortAttach w"
  "rows (fold grip rs w) = rows w"
  by (induction rs arbitrary: w) simp_all

lemma heap_fold_grip:
  "heap (fold grip rs w) k = (if k \<in> set rs then gripped (heap w k) else heap w k)"
  by (induction rs arbitrary: w) (auto simp: heap_grip)

lemma applySaved_frame [simp]:
  "sortAttach (fst (applySaved w)) = sortAttach w" "heap (fst (applySaved w)) = heap w"
  by (simp_all add: applySaved_def split: sum.splits json.splits)

lemma rows_fst_applySaved_set: "set (rows (fst (applySaved w))) = set (rows w)"
proof -
  have "set (kids (fst (applySaved w))) = set (kids w)"
    using applySaved_kids_mset [of w] by (rule mset_eq_setD)
  then show ?thesis by (auto simp: rows_def)
qed

lemma rowName_sortAttach [simp]: "rowName (w\<lparr>sortAttach := b\<rparr>) = rowName w"
  by (simp add: rowName_def fun_eq_iff)

lemma setName_sortAttach [simp]: "setName (w\<lparr>sortAttach := b\<rparr>) = setName w"
  by (simp add: setName_def fun_eq_iff)

lemma nameMap_sortAttach [simp]: "nameMap (w\<lparr>sortAttach := b\<rparr>) = nameMap w"
  by (simp add: nameMap_def rows_def)

lemma applySaved_sortAttach_kids:
  "kids (fst (applySaved (w\<lparr>sortAttach := b\<rparr>))) = kids (fst (applySaved w))"
  "snd (applySaved (w\<lparr>sortAttach := b\<rparr>)) = snd (applySaved w)"
  by (simp_all add: applySaved_def split: sum.splits json.splits)

lemma sortAttach_init [simp]: "sortAttach (fst (init w))"
proof -
  have "sortAttach (fst (applySaved (w\<lparr>sortAttach := True\<rparr>)))" by simp
  then show ?thesis
    by (cases "applySaved (w\<lparr>sortAttach := True\<rparr>)") (auto simp: init_def split: option.splits)
qed

lemma sortAttach_observed [simp]: "sortAttach (fst (observed w))"
  by (simp add: observed_def)

lemma observed_again: "observed (fst (observed w)) = (fst (observed w), None)"
  by (simp add: observed_def [of "fst (observed w)"])

text \<open>
  Claim C5.  The attach path is the observer's callback.  Run a second time on the same
  list it does nothing at all: the state after the second run is the state after the
  first, and the second run raises nothing, so no handle is added and no row is moved
  again.  And when the first run finds the list not yet attached, its rows without a
  handle and with a wrapper, and the stored order readable, then after both runs every
  row has exactly one handle and the children are ordered as one application of the saved
  order leaves them.
\<close>

theorem attach_twice:
  "observed (fst (observed w)) = (fst (observed w), None)
   \<and> (\<not> sortAttach w \<and> snd (observed w) = None
        \<and> list_all (\<lambda>r. \<not> hasHandle (heap w r) \<and> handles (heap w r) = 0 \<and> hasWrap (heap w r)) (rows w)
      \<longrightarrow> list_all (\<lambda>r. handles (heap (fst (observed (fst (observed w)))) r) = 1)
             (rows (fst (observed (fst (observed w)))))
          \<and> kids (fst (observed (fst (observed w)))) = kids (fst (applySaved w)))"
proof (intro conjI impI)
  show again: "observed (fst (observed w)) = (fst (observed w), None)"
    by (rule observed_again)
  assume a: "\<not> sortAttach w \<and> snd (observed w) = None
        \<and> list_all (\<lambda>r. \<not> hasHandle (heap w r) \<and> handles (heap w r) = 0 \<and> hasWrap (heap w r)) (rows w)"
  let ?w1 = "fst (applySaved (w\<lparr>sortAttach := True\<rparr>))"
  from a have fresh: "\<not> sortAttach w" and noerr: "snd (observed w) = None"
    and rowsOK: "list_all (\<lambda>r. \<not> hasHandle (heap w r) \<and> handles (heap w r) = 0 \<and> hasWrap (heap w r)) (rows w)"
    by simp_all
  have "snd (init w) = None" using fresh noerr by (simp add: observed_def)
  then have ok: "snd (applySaved (w\<lparr>sortAttach := True\<rparr>)) = None"
    by (cases "applySaved (w\<lparr>sortAttach := True\<rparr>)") (auto simp: init_def split: option.splits)
  then have obs: "fst (observed w) = fold grip (rows ?w1) ?w1"
    using fresh by (cases "applySaved (w\<lparr>sortAttach := True\<rparr>)") (auto simp: observed_def init_def)
  have rs: "set (rows ?w1) = set (rows w)"
    using rows_fst_applySaved_set [of "w\<lparr>sortAttach := True\<rparr>"] by (simp add: rows_def)
  have w2: "fst (observed (fst (observed w))) = fst (observed w)"
    by (simp add: again)
  have rows1: "rows (fst (observed w)) = rows ?w1"
    by (simp add: obs)
  have one: "handles (heap (fst (observed w)) r) = 1" if "r \<in> set (rows ?w1)" for r
  proof -
    have "r \<in> set (rows w)" using that rs by simp
    then have "\<not> hasHandle (heap w r) \<and> handles (heap w r) = 0 \<and> hasWrap (heap w r)"
      using rowsOK by (simp add: list_all_iff)
    then show ?thesis using that by (simp add: obs heap_fold_grip gripped_def)
  qed
  show "list_all (\<lambda>r. handles (heap (fst (observed (fst (observed w)))) r) = 1)
             (rows (fst (observed (fst (observed w)))))"
    unfolding w2 rows1 list_all_iff using one by blast
  show "kids (fst (observed (fst (observed w)))) = kids (fst (applySaved w))"
    unfolding w2 by (simp add: obs applySaved_sortAttach_kids)
qed

lemmas attach_defs = observed_def init_def grip_def

theorem attach_twice_witness:
  "\<not> sortAttach example_AB \<and> snd (observed example_AB) = None
   \<and> list_all (\<lambda>r. \<not> hasHandle (heap example_AB r) \<and> handles (heap example_AB r) = 0
                    \<and> hasWrap (heap example_AB r)) (rows example_AB)
   \<and> observed (fst (observed example_AB)) = (fst (observed example_AB), None)
   \<and> rows (fst (observed (fst (observed example_AB)))) = [2, 1]
   \<and> map (\<lambda>r. handles (heap (fst (observed (fst (observed example_AB)))) r)) [2, 1] = [1, 1]"
proof -
  have o: "snd (observed example_AB) = None" "rows (fst (observed example_AB)) = [2, 1]"
    "map (\<lambda>r. handles (heap (fst (observed example_AB)) r)) [2, 1] = [1, 1]"
    by (simp_all add: attach_defs example_defs restore_defs)
  have f: "\<not> sortAttach example_AB"
    "list_all (\<lambda>r. \<not> hasHandle (heap example_AB r) \<and> handles (heap example_AB r) = 0
                    \<and> hasWrap (heap example_AB r)) (rows example_AB)"
    by (simp_all add: example_defs rows_def)
  show ?thesis
    using attach_twice [of example_AB] o f by simp
qed


section \<open>The drag session\<close>

subsection \<open>Moving one node\<close>

lemma put_before_filter: "filter (\<lambda>k. k \<noteq> n) (put_before t n xs) = filter (\<lambda>k. k \<noteq> n) xs"
  by (induction xs) auto

lemma put_after_filter: "filter (\<lambda>k. k \<noteq> n) (put_after t n xs) = filter (\<lambda>k. k \<noteq> n) xs"
  by (induction xs) auto

lemma remove1_filter: "filter (\<lambda>k. k \<noteq> n) (remove1 n xs) = filter (\<lambda>k. k \<noteq> n) xs"
  by (induction xs) simp_all

lemma before_filter: "filter (\<lambda>k. k \<noteq> n) (before t n ks) = filter (\<lambda>k. k \<noteq> n) ks"
  by (simp add: before_def put_before_filter remove1_filter)

lemma after_filter: "filter (\<lambda>k. k \<noteq> n) (after t n ks) = filter (\<lambda>k. k \<noteq> n) ks"
  by (simp add: after_def put_after_filter remove1_filter)

lemma put_before_mset: "t \<in> set xs \<Longrightarrow> mset (put_before t n xs) = add_mset n (mset xs)"
  by (induction xs) auto

lemma put_after_mset: "t \<in> set xs \<Longrightarrow> mset (put_after t n xs) = add_mset n (mset xs)"
  by (induction xs) auto

lemma before_mset: "n \<in> set ks \<Longrightarrow> mset (before t n ks) = mset ks"
  by (simp add: before_def put_before_mset)

lemma after_mset: "n \<in> set ks \<Longrightarrow> mset (after t n ks) = mset ks"
  by (simp add: after_def put_after_mset)

lemma put_before_adjacent: "t \<in> set xs \<Longrightarrow> \<exists>ys zs. put_before t n xs = ys @ n # t # zs"
proof (induction xs)
  case Nil
  then show ?case by simp
next
  case (Cons x xs)
  show ?case
  proof (cases "x = t")
    case True
    then have "put_before t n (x # xs) = [] @ n # t # xs" by simp
    then show ?thesis by blast
  next
    case False
    then obtain ys zs where "put_before t n xs = ys @ n # t # zs"
      using Cons by auto
    then have "put_before t n (x # xs) = (x # ys) @ n # t # zs"
      using False by simp
    then show ?thesis by blast
  qed
qed

lemma put_after_adjacent: "t \<in> set xs \<Longrightarrow> \<exists>ys zs. put_after t n xs = ys @ t # n # zs"
proof (induction xs)
  case Nil
  then show ?case by simp
next
  case (Cons x xs)
  show ?case
  proof (cases "x = t")
    case True
    then have "put_after t n (x # xs) = [] @ t # n # xs" by simp
    then show ?thesis by blast
  next
    case False
    then obtain ys zs where "put_after t n xs = ys @ t # n # zs"
      using Cons by auto
    then have "put_after t n (x # xs) = (x # ys) @ t # n # zs"
      using False by simp
    then show ?thesis by blast
  qed
qed

lemma before_adjacent:
  "t \<in> set ks \<Longrightarrow> t \<noteq> n \<Longrightarrow> \<exists>ys zs. before t n ks = ys @ n # t # zs"
  by (simp add: before_def put_before_adjacent)

lemma after_adjacent:
  "t \<in> set ks \<Longrightarrow> t \<noteq> n \<Longrightarrow> \<exists>ys zs. after t n ks = ys @ t # n # zs"
  by (simp add: after_def put_after_adjacent)

subsection \<open>What the steps of \<open>#move\<close> leave alone\<close>

lemma follow_frame [simp]:
  "kids (follow lay e d w) = kids w" "scrollTop (follow lay e d w) = scrollTop w"
  "localStorage (follow lay e d w) = localStorage w" "drag (follow lay e d w) = drag w"
  "sortAttach (follow lay e d w) = sortAttach w" "onpointermove (follow lay e d w) = onpointermove w"
  "onpointerup (follow lay e d w) = onpointerup w"
  "menuitem (heap (follow lay e d w) k) = menuitem (heap w k)"
  "classList (heap (follow lay e d w) k) = classList (heap w k)"
  "css_zIndex (inline (heap (follow lay e d w) k)) = css_zIndex (inline (heap w k))"
  by (simp_all add: follow_def)

lemma rows_follow [simp]: "rows (follow lay e d w) = rows w"
  by (simp add: rows_def)

lemma autoScroll_frame [simp]:
  "kids (autoScroll lay e g w) = kids w" "heap (autoScroll lay e g w) = heap w"
  "localStorage (autoScroll lay e g w) = localStorage w" "drag (autoScroll lay e g w) = drag w"
  "sortAttach (autoScroll lay e g w) = sortAttach w"
  "onpointermove (autoScroll lay e g w) = onpointermove w"
  "onpointerup (autoScroll lay e g w) = onpointerup w"
  by (simp_all add: autoScroll_def set_scrollTop_def Let_def)

lemma rows_autoScroll [simp]: "rows (autoScroll lay e g w) = rows w"
  by (simp add: rows_def)

lemma reposition_frame [simp]:
  "heap (reposition lay e d w) = heap w" "scrollTop (reposition lay e d w) = scrollTop w"
  "localStorage (reposition lay e d w) = localStorage w" "drag (reposition lay e d w) = drag w"
  "sortAttach (reposition lay e d w) = sortAttach w"
  "onpointermove (reposition lay e d w) = onpointermove w"
  "onpointerup (reposition lay e d w) = onpointerup w"
  by (simp_all add: reposition_def split: option.splits)

lemma reposition_eq: "reposition lay e d w = w\<lparr>kids := kids (reposition lay e d w)\<rparr>"
  by (simp add: reposition_def split: option.splits)

lemma autoScroll_eq: "autoScroll lay e g w = w\<lparr>scrollTop := scrollTop (autoScroll lay e g w)\<rparr>"
  by (simp add: autoScroll_def set_scrollTop_def Let_def)

lemma reposition_filter:
  "filter (\<lambda>k. k \<noteq> d_ph d) (kids (reposition lay e d w)) = filter (\<lambda>k. k \<noteq> d_ph d) (kids w)"
  by (simp add: reposition_def before_filter after_filter split: option.splits)

lemma reposition_mset:
  "d_ph d \<in> set (kids w) \<Longrightarrow> mset (kids (reposition lay e d w)) = mset (kids w)"
  by (simp add: reposition_def before_mset after_mset split: option.splits)


subsection \<open>The binary64 rounding of the examples\<close>

lemma rne_of_int [simp]: "rne (of_int m) = m"
  by (simp add: rne_def)

lemma rne_bounds: "\<lfloor>q\<rfloor> \<le> rne q" "rne q \<le> \<lfloor>q\<rfloor> + 1"
  by (simp_all add: rne_def Let_def)

lemma binary64_normal:
  assumes lo: "2 powr of_int k \<le> \<bar>x\<bar>" and hi: "\<bar>x\<bar> < 2 powr (of_int k + 1)"
    and k: "- 1022 \<le> k" "k \<le> 1022"
  shows "binary64 x = of_int (rne (x / 2 powr (of_int k - 52))) * 2 powr (of_int k - 52)"
proof -
  have pos: "0 < \<bar>x\<bar>" using lo by (smt (verit) powr_gt_zero)
  then have x0: "x \<noteq> 0" by auto
  have fl: "\<lfloor>log 2 \<bar>x\<bar>\<rfloor> = k"
    using lo hi pos by (simp add: floor_log_eq_powr_iff)
  let ?u = "2 powr (of_int k - 52) :: real"
  let ?q = "x / ?u"
  have u: "0 < ?u" by simp
  have qb: "\<bar>?q\<bar> < 2 powr 53"
  proof -
    have "\<bar>?q\<bar> = \<bar>x\<bar> / ?u" by simp
    also have "\<dots> < 2 powr (of_int k + 1) / ?u" using hi u by (simp add: divide_strict_right_mono)
    also have "\<dots> = 2 powr 53" by (simp flip: powr_diff)
    finally show ?thesis .
  qed
  have "\<bar>real_of_int (rne ?q)\<bar> \<le> 2 powr 53"
  proof -
    have p: "(2::real) powr 53 = of_int (2 ^ 53)" by simp
    have a: "?q < of_int (2 ^ 53)" "- of_int (2 ^ 53) < ?q" using qb unfolding p by linarith+
    have "\<lfloor>?q\<rfloor> < 2 ^ 53" using a(1) by (simp add: floor_less_iff)
    moreover have "- (2 ^ 53) \<le> \<lfloor>?q\<rfloor>" using a(2) by (simp add: le_floor_iff)
    ultimately have "rne ?q \<le> 2 ^ 53" "- (2 ^ 53) \<le> rne ?q"
      using rne_bounds [of ?q] by linarith+
    then have "\<bar>rne ?q\<bar> \<le> 2 ^ 53" by linarith
    then have "\<bar>real_of_int (rne ?q)\<bar> \<le> real_of_int (2 ^ 53)"
      by (metis of_int_abs of_int_le_iff)
    then show ?thesis unfolding p .
  qed
  then have "\<bar>of_int (rne ?q) * ?u\<bar> \<le> 2 powr 53 * ?u"
    using u by (simp add: abs_mult mult_right_mono)
  also have "\<dots> = 2 powr (of_int k + 1)"
    by (subst powr_add [symmetric]) (rule arg_cong [where f = "\<lambda>y. 2 powr y"], simp)
  also have "\<dots> < 2 powr 1024"
    by (rule powr_less_mono) (use k in simp_all)
  finally have "\<not> 2 powr 1024 \<le> \<bar>of_int (rne ?q) * ?u\<bar>" by (simp only: not_le)
  then show ?thesis
    using x0 k by (simp add: binary64_def fl Let_def)
qed

lemma binary64_int:
  assumes "\<bar>n\<bar> < 2 ^ 53"
  shows "binary64 (of_int n) = of_int n"
proof (cases "n = 0")
  case True
  then show ?thesis by (simp add: binary64_def)
next
  case False
  define k where "k = \<lfloor>log 2 \<bar>real_of_int n\<bar>\<rfloor>"
  have pos: "0 < \<bar>real_of_int n\<bar>" using False by simp
  have b: "2 powr of_int k \<le> \<bar>real_of_int n\<bar>" "\<bar>real_of_int n\<bar> < 2 powr (of_int k + 1)"
    using pos floor_log_eq_powr_iff [of "\<bar>real_of_int n\<bar>" 2 k] by (simp_all add: k_def)
  have "1 \<le> \<bar>real_of_int n\<bar>" using False by (metis abs_ge_zero of_int_abs of_int_1_le_iff zero_less_abs_iff int_one_le_iff_zero_less)
  then have "0 \<le> log 2 \<bar>real_of_int n\<bar>" by simp
  then have k0: "0 \<le> k" by (simp add: k_def)
  have "\<bar>real_of_int n\<bar> < 2 ^ 53" using assms by (metis of_int_abs of_int_less_iff of_int_numeral of_int_power)
  then have "\<bar>real_of_int n\<bar> < 2 powr 53" by simp
  then have "2 powr of_int k < (2::real) powr 53" using b(1) by linarith
  then have "real_of_int k < 53" by (rule powr_less_cancel) simp
  then have k52: "k \<le> 52" by linarith
  obtain j where j: "52 - k = int j" using k52 by (metis diff_ge_0_iff_ge nonneg_int_cases)
  have u: "(2::real) powr (of_int k - 52) = 1 / 2 ^ j"
  proof -
    have "of_int k - 52 = - real j" using j by linarith
    then show ?thesis by (simp add: powr_minus powr_realpow divide_inverse)
  qed
  have "real_of_int n / (1 / 2 ^ j) = of_int (n * 2 ^ j)" by simp
  then have "rne (real_of_int n / 2 powr (of_int k - 52)) = n * 2 ^ j"
    unfolding u by (metis rne_of_int)
  then show ?thesis
    using binary64_normal [OF b] k0 k52 by (simp add: u)
qed

lemma binary64_numeral [simp]:
  "numeral m < (2::int) ^ 53 \<Longrightarrow> binary64 (numeral m) = numeral m"
  "numeral m < (2::int) ^ 53 \<Longrightarrow> binary64 (- numeral m) = - numeral m"
  "binary64 0 = 0" "binary64 1 = 1"
  using binary64_int [of "numeral m"] binary64_int [of "- numeral m"] binary64_int [of 1]
  by (simp_all add: binary64_def)

lemma binary64_at:
  assumes "2 powr of_int k \<le> \<bar>x\<bar>" and "\<bar>x\<bar> < 2 powr (of_int k + 1)"
    and "- 1022 \<le> k" and "k \<le> 1022" and "2 powr (of_int k - 52) = u"
  shows "binary64 x = of_int (rne (x / u)) * u"
  using binary64_normal [OF assms(1-4)] unfolding assms(5) .

lemma two_powr_neg: "(2::real) powr - numeral n = 1 / 2 ^ numeral n"
  by (simp only: powr_minus_divide powr_numeral zero_le_numeral)

subsection \<open>Auto-scroll\<close>

lemma move_Some:
  "drag w = Some d \<Longrightarrow> d_list d \<Longrightarrow>
   move lay e w = (reposition lay e d (autoScroll lay e (d_edge d) (follow lay e d w)), None)"
  by (simp add: move_def)

text \<open>
  Claim C4, as the code has it.  On every move event of a drag, with the bounds of the
  list read after the row has been positioned: if the pointer's Y is less than
  \<open>top + edge\<close>, wherever above that line it is, the scroll offset is assigned
  \<open>scrollTop - edge\<close>; otherwise, if it is greater than \<open>bottom - edge\<close>, wherever below
  that line, the offset is assigned \<open>scrollTop + edge\<close>; otherwise it is unchanged.  The
  top test is made first and wins when both hold, and an assigned offset is clamped by
  the browser to the scroll range: the change is exactly the margin only when the range
  has that much room.  The sums and differences are the ones the host computes.
\<close>

theorem move_autoScroll:
  assumes "drag w = Some d" and "d_list d"
  shows "scrollTop (fst (move lay e w)) =
     (if clientY e < js_plus lay (r_top (listRect lay (follow lay e d w))) (d_edge d)
      then max 0 (min (js_minus lay (scrollTop w) (d_edge d)) (scrollLimit lay (follow lay e d w)))
      else if clientY e > js_minus lay (r_bottom (listRect lay (follow lay e d w))) (d_edge d)
      then max 0 (min (js_plus lay (scrollTop w) (d_edge d)) (scrollLimit lay (follow lay e d w)))
      else scrollTop w)"
  using assms by (simp add: move_Some autoScroll_def set_scrollTop_def Let_def)

lemmas drag_defs =
  example_drag_def example_drag_top_def example_ABCDE_def example_list_def named_row_def blank_elem_def no_style_def
  flow_layout_def inFlow_def flowTop_def px_def down_def createElement_def before_def
  classList_add_def CLASSES_dragging_def CLASSES_placeholder_def DRAG_edgeDistance_def
  js_minus_def

lemmas move_defs =
  move_def follow_def autoScroll_def reposition_def target_def set_scrollTop_def
  js_plus_def js_minus_def js_half_def
  candidates_def rows_def contains_def upperHalf_def after_def

lemma example_drag_session:
  "drag example_drag =
     Some \<lparr>d_row = 3, d_list = True, d_ph = 6, d_offX = 10, d_offY = 18, d_edge = 40\<rparr>"
  by (simp add: drag_defs)

lemma example_drag_kids: "kids example_drag = [1, 2, 6, 3, 4, 5]"
  by (simp add: drag_defs)

theorem move_autoScroll_witness:
  "drag example_drag = Some \<lparr>d_row = 3, d_list = True, d_ph = 6, d_offX = 10, d_offY = 18, d_edge = 40\<rparr>
   \<and> scrollTop example_drag = 40
   \<and> scrollTop (fst (move (flow_layout 60) \<lparr>clientX = 10, clientY = 50\<rparr> example_drag)) = 80"
proof -
  have "scrollTop example_drag = 40" by (simp add: drag_defs)
  moreover have "listRect (flow_layout 60) w
      = \<lparr>r_left = 0, r_top = 0, r_width = 200, r_height = 60, r_bottom = 60\<rparr>" for w
    by (simp add: flow_layout_def)
  moreover have "num (flow_layout 60) = binary64"
    by (simp add: flow_layout_def)
  moreover have "scrollLimit (flow_layout 60)
       (follow (flow_layout 60) \<lparr>clientX = 10, clientY = 50\<rparr>
          \<lparr>d_row = 3, d_list = True, d_ph = 6, d_offX = 10, d_offY = 18, d_edge = 40\<rparr> example_drag) = 120"
    by (simp add: drag_defs follow_def)
  ultimately show ?thesis
    using move_autoScroll [OF example_drag_session, of "flow_layout 60" "\<lparr>clientX = 10, clientY = 50\<rparr>"]
      example_drag_session
    by (simp add: js_plus_def js_minus_def)
qed

text \<open>
  Four move events at which the claim, as stated, fails; the margin is 40 pixels.

  Both margins: the list of \<open>example_drag\<close> lies from 0 to 60 pixels, less than twice the
  margin, and is scrolled by 40 with room for another 40 either way.  A pointer at Y 30
  is strictly within the margin of the top bound and of the bottom bound; the offset
  decreases by the margin and does not increase by it.

  At the start of the scroll range: the list of \<open>example_drag_top\<close> lies from 0 to 100
  pixels and is not scrolled.  A pointer at Y 20 is strictly within the margin of the top
  bound only; the offset stays 0 and does not decrease by the margin.

  Below the list: in the same state a pointer at Y 300 is 200 pixels below the bottom
  bound, outside either margin; the offset increases, from 0 to 40.

  Above the list: in \<open>example_drag\<close> a pointer at Y -50 is 50 pixels above the top bound,
  outside either margin; the offset decreases, from 40 to 0.
\<close>

theorem move_autoScroll_counterexample:
  "(r_top (listRect (flow_layout 60) example_drag) \<le> 30
    \<and> 30 < r_top (listRect (flow_layout 60) example_drag) + DRAG_edgeDistance
    \<and> r_bottom (listRect (flow_layout 60) example_drag) - DRAG_edgeDistance < 30
    \<and> 30 \<le> r_bottom (listRect (flow_layout 60) example_drag)
    \<and> scrollTop example_drag + DRAG_edgeDistance \<le> scrollLimit (flow_layout 60) example_drag
    \<and> scrollTop (fst (move (flow_layout 60) \<lparr>clientX = 10, clientY = 30\<rparr> example_drag))
        \<noteq> scrollTop example_drag + DRAG_edgeDistance)
   \<and> (r_top (listRect (flow_layout 100) example_drag_top) \<le> 20
    \<and> 20 < r_top (listRect (flow_layout 100) example_drag_top) + DRAG_edgeDistance
    \<and> 20 < r_bottom (listRect (flow_layout 100) example_drag_top) - DRAG_edgeDistance
    \<and> scrollTop example_drag_top = 0
    \<and> scrollTop (fst (move (flow_layout 100) \<lparr>clientX = 10, clientY = 20\<rparr> example_drag_top))
        \<noteq> scrollTop example_drag_top - DRAG_edgeDistance)
   \<and> (r_bottom (listRect (flow_layout 100) example_drag_top) + DRAG_edgeDistance < 300
    \<and> scrollTop (fst (move (flow_layout 100) \<lparr>clientX = 10, clientY = 300\<rparr> example_drag_top))
        \<noteq> scrollTop example_drag_top)
   \<and> (- 50 < r_top (listRect (flow_layout 60) example_drag) - DRAG_edgeDistance
    \<and> scrollTop (fst (move (flow_layout 60) \<lparr>clientX = 10, clientY = - 50\<rparr> example_drag))
        \<noteq> scrollTop example_drag)"
  by (simp add: drag_defs move_defs)

subsection \<open>The placeholder during a session\<close>

lemma fold_max_ge: "(m::nat) \<le> fold max xs m"
  by (induction xs arbitrary: m) (auto intro: order_trans [OF max.cobounded2])

lemma fold_max_bound: "x \<in> set xs \<Longrightarrow> (x::nat) \<le> fold max xs m"
proof (induction xs arbitrary: m)
  case Nil
  then show ?case by simp
next
  case (Cons a xs)
  show ?case
  proof (cases "x = a")
    case True
    have "a \<le> max a m" by simp
    also have "\<dots> \<le> fold max xs (max a m)" by (rule fold_max_ge)
    finally show ?thesis using True by simp
  next
    case False
    then show ?thesis using Cons by simp
  qed
qed

lemma createElement_fresh: "createElement w \<notin> set (kids w)"
  using fold_max_bound [of "createElement w" "kids w" 0] by (auto simp: createElement_def)

lemma filter_put_before_single:
  "t \<in> set xs \<Longrightarrow> P n \<Longrightarrow> list_all (\<lambda>x. \<not> P x) xs \<Longrightarrow> filter P (put_before t n xs) = [n]"
  by (induction xs) (auto simp: list_all_iff)

lemma classList_add_other:
  "c \<noteq> c' \<Longrightarrow> c' \<in> set (classList_add c cs) \<longleftrightarrow> c' \<in> set cs"
  by (auto simp: classList_add_def)

lemma classes_differ: "CLASSES_dragging \<noteq> CLASSES_placeholder"
  by (simp add: CLASSES_dragging_def CLASSES_placeholder_def)

lemma down_session:
  "drag (down lay e row w) =
     Some \<lparr>d_row = row, d_list = (row \<in> set (kids w)), d_ph = createElement w,
           d_offX = js_minus lay (clientX e) (r_left (nodeRect lay w row)),
           d_offY = js_minus lay (clientY e) (r_top (nodeRect lay w row)),
           d_edge = DRAG_edgeDistance\<rparr>"
  "onpointermove (down lay e row w)" "onpointerup (down lay e row w)"
  by (simp_all add: down_def Let_def)

lemma down_kids:
  "row \<in> set (kids w) \<Longrightarrow> kids (down lay e row w) = put_before row (createElement w) (kids w)"
  using createElement_fresh [of w] by (auto simp: down_def Let_def before_def remove1_idem)

lemma down_placeholders:
  assumes row: "row \<in> set (kids w)" and none: "placeholders w = []"
  shows "placeholders (down lay e row w) = [createElement w]"
proof -
  let ?ph = "createElement w"
  let ?P = "\<lambda>k. CLASSES_placeholder \<in> set (classList (heap (down lay e row w) k))"
  have ne: "?ph \<noteq> row" using row createElement_fresh [of w] by auto
  have old: "CLASSES_placeholder \<notin> set (classList (heap w k))" if "k \<in> set (kids w)" for k
    using none that by (auto simp: placeholders_def filter_empty_conv)
  have "?P ?ph" using ne by (simp add: down_def Let_def blank_elem_def)
  moreover have "list_all (\<lambda>k. \<not> ?P k) (kids w)"
    unfolding list_all_iff
  proof
    fix k assume k: "k \<in> set (kids w)"
    then have "k \<noteq> ?ph" using createElement_fresh [of w] by auto
    then show "\<not> ?P k"
      using old [OF k] by (auto simp: down_def Let_def classList_add_other [OF classes_differ])
  qed
  ultimately have "filter ?P (put_before row ?ph (kids w)) = [?ph]"
    using row by (intro filter_put_before_single)
  then show ?thesis
    by (simp add: placeholders_def down_kids [OF row])
qed

lemma pointermove_session:
  assumes "drag w = Some d" and "d_list d" and "d_ph d \<in> set (kids w)"
  shows "drag (fst (pointermove lay e w)) = Some d"
    and "onpointermove (fst (pointermove lay e w)) = onpointermove w"
    and "mset (kids (fst (pointermove lay e w))) = mset (kids w)"
    and "classList (heap (fst (pointermove lay e w)) k) = classList (heap w k)"
  using assms by (simp_all add: pointermove_def move_Some reposition_mset)

lemma moves_session:
  assumes "drag w = Some d" and "d_list d" and "d_ph d \<in> set (kids w)"
  shows "drag (moves es w) = Some d \<and> mset (kids (moves es w)) = mset (kids w)
       \<and> (\<forall>k. classList (heap (moves es w) k) = classList (heap w k))"
  using assms
proof (induction es arbitrary: w)
  case Nil
  then show ?case by simp
next
  case (Cons le es)
  obtain lay e where le: "le = (lay, e)" by (cases le)
  let ?w = "fst (pointermove lay e w)"
  note step = pointermove_session [OF Cons.prems, of lay e]
  have "d_ph d \<in> set (kids ?w)"
    using step(3) Cons.prems(3) by (metis mset_eq_setD)
  from Cons.IH [OF step(1) Cons.prems(2) this] show ?case
    using step by (simp add: le)
qed

lemma single_from_mset: "mset xs = {#x#} \<Longrightarrow> xs = [x]"
  by (cases xs) auto

text \<open>
  As long as the events that follow \<open>#down\<close> are move events, the session stays as
  \<open>#down\<close> set it up and the placeholder it created is the only one, provided the list
  held none before.
\<close>

lemma session_inv:
  assumes row: "row \<in> set (kids w)" and none: "placeholders w = []"
  shows "drag (moves es (down lay e row w)) = drag (down lay e row w)"
    and "mset (kids (moves es (down lay e row w))) = mset (kids (down lay e row w))"
    and "placeholders (moves es (down lay e row w)) = [createElement w]"
proof -
  let ?w1 = "down lay e row w"
  let ?d = "\<lparr>d_row = row, d_list = True, d_ph = createElement w,
           d_offX = js_minus lay (clientX e) (r_left (nodeRect lay w row)),
           d_offY = js_minus lay (clientY e) (r_top (nodeRect lay w row)),
           d_edge = DRAG_edgeDistance\<rparr>"
  have d: "drag ?w1 = Some ?d" using row by (simp add: down_session)
  have ph1: "placeholders ?w1 = [createElement w]"
    using row none by (rule down_placeholders)
  then have "createElement w \<in> set (placeholders ?w1)" by simp
  then have "d_ph ?d \<in> set (kids ?w1)" by (simp add: placeholders_def)
  from moves_session [OF d _ this, of es]
  have inv: "drag (moves es ?w1) = Some ?d" "mset (kids (moves es ?w1)) = mset (kids ?w1)"
    "\<And>k. classList (heap (moves es ?w1) k) = classList (heap ?w1 k)"
    by simp_all
  show "drag (moves es ?w1) = drag ?w1" "mset (kids (moves es ?w1)) = mset (kids ?w1)"
    by (simp_all add: inv d)
  have "mset (placeholders (moves es ?w1)) = mset (placeholders ?w1)"
    by (simp add: placeholders_def inv(2,3))
  then show "placeholders (moves es ?w1) = [createElement w]"
    using ph1 by (simp add: single_from_mset)
qed

subsection \<open>Placing the placeholder\<close>

lemma scanned_frame [simp]:
  "kids (scanned lay e d w) = kids w" "rows (scanned lay e d w) = rows w"
  by (simp_all add: scanned_def)

lemma move_scanned:
  "drag w = Some d \<Longrightarrow> d_list d \<Longrightarrow>
   move lay e w = (reposition lay e d (scanned lay e d w), None)"
  by (simp add: move_Some scanned_def)

lemma find_SomeD: "find P xs = Some x \<Longrightarrow> x \<in> set xs \<and> P x"
  by (induction xs) (auto split: if_splits)

lemma target_Some:
  "target lay e d w = Some item \<Longrightarrow>
   item \<in> set (rows w) \<and> item \<noteq> d_row d \<and> contains lay e w item"
  using find_SomeD [of "contains lay e w" "candidates (d_row d) w" item]
  by (simp add: target_def candidates_def)

text \<open>The scan of \<open>#move\<close> never stops at the dragged row.\<close>

lemma target_not_row: "target lay e d w \<noteq> Some (d_row d)"
  using target_Some [of lay e d w "d_row d"] by auto

lemma target_None:
  "target lay e d w = None \<longleftrightarrow> list_all (\<lambda>i. \<not> contains lay e w i) (candidates (d_row d) w)"
  by (auto simp: target_def find_None_iff list_all_iff)


text \<open>
  Claim C7.  In a move event of a session whose placeholder is not itself a row, let the
  rows other than the dragged one be scanned in DOM order.  A row's bounds contain the
  pointer when its Y lies strictly between the row's top and bottom; it is in the upper
  half when its Y is less than the top plus half the height, as the host computes that
  sum.  No scanned row's bounds
  contain the pointer exactly when the scan finds nothing, and then the children keep
  their order (the placeholder stays).  Otherwise the scan stops at the first such row, a
  row other than the dragged one, and afterwards the placeholder is the sibling
  immediately before that row when the pointer is in the row's upper half, and the
  sibling immediately after it otherwise.
\<close>

theorem move_places_placeholder:
  assumes d: "drag w = Some d" and l: "d_list d" and ph: "\<not> menuitem (heap w (d_ph d))"
  shows "(target lay e d (scanned lay e d w) = None
            \<longleftrightarrow> list_all (\<lambda>i. \<not> contains lay e (scanned lay e d w) i)
                  (candidates (d_row d) (scanned lay e d w)))
       \<and> (case target lay e d (scanned lay e d w) of
            None \<Rightarrow> kids (fst (move lay e w)) = kids w
          | Some item \<Rightarrow>
              item \<in> set (rows w) \<and> item \<noteq> d_row d \<and> contains lay e (scanned lay e d w) item
              \<and> (if upperHalf lay e (scanned lay e d w) item
                 then \<exists>ys zs. kids (fst (move lay e w)) = ys @ d_ph d # item # zs
                 else \<exists>ys zs. kids (fst (move lay e w)) = ys @ item # d_ph d # zs))"
proof (intro conjI)
  show "target lay e d (scanned lay e d w) = None
          \<longleftrightarrow> list_all (\<lambda>i. \<not> contains lay e (scanned lay e d w) i)
                (candidates (d_row d) (scanned lay e d w))"
    by (rule target_None)
  show "case target lay e d (scanned lay e d w) of
            None \<Rightarrow> kids (fst (move lay e w)) = kids w
          | Some item \<Rightarrow>
              item \<in> set (rows w) \<and> item \<noteq> d_row d \<and> contains lay e (scanned lay e d w) item
              \<and> (if upperHalf lay e (scanned lay e d w) item
                 then \<exists>ys zs. kids (fst (move lay e w)) = ys @ d_ph d # item # zs
                 else \<exists>ys zs. kids (fst (move lay e w)) = ys @ item # d_ph d # zs)"
  proof (cases "target lay e d (scanned lay e d w)")
    case None
    then show ?thesis
      by (simp add: move_scanned [OF d l] reposition_def)
  next
    case (Some item)
    from target_Some [OF Some]
    have item: "item \<in> set (rows w)" "item \<noteq> d_row d" "contains lay e (scanned lay e d w) item"
      by simp_all
    have "menuitem (heap w item)" using item(1) by (simp add: rows_def)
    then have ne: "item \<noteq> d_ph d" using ph by auto
    have mem: "item \<in> set (kids w)" using item(1) rows_subset_kids by blast
    show ?thesis
      using item before_adjacent [OF mem ne] after_adjacent [OF mem ne]
      by (simp add: Some move_scanned [OF d l] reposition_def)
  qed
qed

subsection \<open>What a move event changes\<close>

text \<open>
  Claim C10.  A move event of a session changes the state in three places only: the
  inline \<open>left\<close> and \<open>top\<close> of the dragged row, the scroll offset, and the order of the
  children.  Among the children only the placeholder changes place: the children other
  than the placeholder, and so the rows other than the placeholder, keep their relative
  order.  Every other element is as it was, and \<open>localStorage\<close> is not written.
\<close>

theorem move_frame:
  assumes d: "drag w = Some d"
  shows "fst (move lay e w)
           = (follow lay e d w)\<lparr>scrollTop := scrollTop (fst (move lay e w)),
                            kids := kids (fst (move lay e w))\<rparr>
       \<and> heap (fst (move lay e w)) (d_row d)
           = (heap w (d_row d))\<lparr>inline := (inline (heap w (d_row d)))
                \<lparr>css_left := Some (js_minus lay (clientX e) (d_offX d)),
                 css_top := Some (js_minus lay (clientY e) (d_offY d))\<rparr>\<rparr>
       \<and> (\<forall>k. k \<noteq> d_row d \<longrightarrow> heap (fst (move lay e w)) k = heap w k)
       \<and> filter (\<lambda>k. k \<noteq> d_ph d) (kids (fst (move lay e w))) = filter (\<lambda>k. k \<noteq> d_ph d) (kids w)
       \<and> filter (\<lambda>r. r \<noteq> d_ph d) (rows (fst (move lay e w))) = filter (\<lambda>r. r \<noteq> d_ph d) (rows w)
       \<and> localStorage (fst (move lay e w)) = localStorage w"
proof -
  let ?w = "fst (move lay e w)"
  let ?s = "autoScroll lay e (d_edge d) (follow lay e d w)"
  have w': "?w = (if d_list d then reposition lay e d ?s else follow lay e d w)"
    using d by (simp add: move_def)
  have heap: "heap ?w = heap (follow lay e d w)"
    by (simp add: w')
  have ks: "filter (\<lambda>k. k \<noteq> d_ph d) (kids ?w) = filter (\<lambda>k. k \<noteq> d_ph d) (kids w)"
    by (simp add: w' reposition_filter)
  have "reposition lay e d ?s = ?s\<lparr>kids := kids (reposition lay e d ?s)\<rparr>"
    by (rule reposition_eq)
  also have "\<dots> = (follow lay e d w)\<lparr>scrollTop := scrollTop ?s, kids := kids (reposition lay e d ?s)\<rparr>"
    by (subst autoScroll_eq) simp
  finally have "?w = (follow lay e d w)\<lparr>scrollTop := scrollTop ?w, kids := kids ?w\<rparr>"
    by (simp add: w')
  moreover have "filter (\<lambda>r. r \<noteq> d_ph d) (rows ?w) = filter (\<lambda>r. r \<noteq> d_ph d) (rows w)"
  proof -
    have "filter (\<lambda>r. r \<noteq> d_ph d) (rows ?w)
        = filter (\<lambda>k. menuitem (heap w k)) (filter (\<lambda>k. k \<noteq> d_ph d) (kids ?w))"
      by (simp add: rows_def heap conj_commute)
    also have "\<dots> = filter (\<lambda>r. r \<noteq> d_ph d) (rows w)"
      by (simp add: ks rows_def conj_commute)
    finally show ?thesis .
  qed
  moreover have "localStorage ?w = localStorage w"
    by (simp add: w')
  ultimately show ?thesis
    using ks by (simp add: heap follow_def)
qed

subsection \<open>Releasing\<close>

lemma pointermove_keeps:
  "drag (fst (pointermove lay e w)) = drag w"
  "onpointerup (fst (pointermove lay e w)) = onpointerup w"
  "css_zIndex (inline (heap (fst (pointermove lay e w)) k)) = css_zIndex (inline (heap w k))"
  by (simp_all add: pointermove_def move_def split: option.splits)

lemma moves_keeps:
  "drag (moves es w) = drag w \<and> onpointerup (moves es w) = onpointerup w
   \<and> css_zIndex (inline (heap (moves es w) k)) = css_zIndex (inline (heap w k))"
proof (induction es arbitrary: w)
  case Nil
  then show ?case by simp
next
  case (Cons le es)
  obtain lay e where "le = (lay, e)" by (cases le)
  then show ?case using Cons [of "fst (pointermove lay e w)"] by (simp add: pointermove_keeps)
qed

lemma save_heap [simp]: "heap (save w) = heap w"
  by (simp add: save_def Let_def)

lemma up_keeps_zIndex:
  "css_zIndex (inline (heap (fst (up w)) k)) = css_zIndex (inline (heap w k))"
  by (simp add: up_def Let_def split: option.splits)

lemma pointerup_keeps_zIndex:
  "css_zIndex (inline (heap (fst (pointerup w)) k)) = css_zIndex (inline (heap w k))"
  by (simp add: pointerup_def up_keeps_zIndex)

text \<open>
  Claim C8.  \<open>#down\<close> sets six inline styles on the row: \<open>width\<close>, \<open>position\<close>,
  \<open>zIndex\<close>, \<open>left\<close>, \<open>top\<close> and \<open>pointerEvents\<close>.  \<open>#up\<close> resets five of them and leaves
  \<open>zIndex\<close> out: after any session, from \<open>#down\<close> through any move events to the
  release, the row still carries the inline \<open>z-index: 999\<close> it got at drag start.
\<close>

theorem session_leaves_zIndex:
  "onpointerup (moves es (down lay e row w))
   \<and> css_zIndex (inline (heap (down lay e row w) row)) = Some 999
   \<and> css_zIndex (inline (heap (fst (pointerup (moves es (down lay e row w)))) row)) = Some 999"
proof -
  have "css_zIndex (inline (heap (down lay e row w) row)) = Some 999"
    by (simp add: down_def Let_def)
  then show ?thesis
    by (simp add: pointerup_keeps_zIndex moves_keeps down_session)
qed

lemma menuitem_moves:
  "menuitem (heap (moves es w) k) = menuitem (heap w k)"
proof (induction es arbitrary: w)
  case Nil
  then show ?case by simp
next
  case (Cons le es)
  obtain lay e where le: "le = (lay, e)" by (cases le)
  have "menuitem (heap (fst (pointermove lay e w)) k) = menuitem (heap w k)"
    by (simp add: pointermove_def move_def split: option.splits)
  then show ?case using Cons [of "fst (pointermove lay e w)"] by (simp add: le)
qed

lemma session_state:
  assumes row: "row \<in> set (kids w)"
  shows "map_option d_row (drag (moves es (down lay e row w))) = Some row
       \<and> map_option d_list (drag (moves es (down lay e row w))) = Some True
       \<and> map_option d_ph (drag (moves es (down lay e row w))) = Some (createElement w)
       \<and> \<not> menuitem (heap (moves es (down lay e row w)) (createElement w))"
proof -
  have ne: "createElement w \<noteq> row" using row createElement_fresh [of w] by auto
  then have "\<not> menuitem (heap (down lay e row w) (createElement w))"
    by (simp add: down_def Let_def blank_elem_def)
  then show ?thesis
    using row by (simp add: menuitem_moves moves_keeps down_session)
qed

lemma replaceWith_split:
  assumes "distinct ks" and "ks = xs @ ph # ys" and "row \<noteq> ph"
  shows "replaceWith ph row ks = remove1 row xs @ row # remove1 row ys"
proof -
  have ph: "ph \<notin> set xs" "ph \<notin> set ys" using assms(1,2) by auto
  have id: "map (\<lambda>k. if k = ph then row else k) zs = zs" if "ph \<notin> set zs" for zs
    using that by (induction zs) auto
  have r: "ph \<notin> set (remove1 row xs)" "ph \<notin> set (remove1 row ys)"
    using ph by (auto dest: notin_set_remove1)
  show ?thesis
  proof (cases "row \<in> set xs")
    case True
    then have "row \<notin> set ys" using assms(1,2) by auto
    then have "remove1 row ks = remove1 row xs @ ph # remove1 row ys"
      using True assms(2) by (simp add: remove1_append remove1_idem)
    then show ?thesis
      using assms(2,3) r by (simp add: replaceWith_def id)
  next
    case False
    then have "remove1 row ks = remove1 row xs @ ph # remove1 row ys"
      using assms(2,3) by (simp add: remove1_append remove1_idem)
    then show ?thesis
      using assms(2,3) r by (simp add: replaceWith_def id)
  qed
qed

lemma domNames_cong: "kids w' = kids w \<Longrightarrow> heap w' = heap w \<Longrightarrow> domNames w' = domNames w"
  by (simp add: domNames_def rows_def rowName_def cong: map_cong)

lemma save_stores:
  "localStorage (save w) STORAGE_KEY
     = Some (JSON_stringify (JArr (map jsonOfName (filter truthyName (domNames w)))))"
  by (simp add: save_def Let_def Store_save_def domNames_def)

lemma save_kids [simp]: "kids (save w) = kids w"
  by (simp add: save_def Let_def)

text \<open>What \<open>#save\<close> stores is always an array of non-empty names.\<close>

lemma save_order_names:
  "\<exists>S. localStorage (save w) STORAGE_KEY = Some (JSON_stringify (JArr (map JStr S)))
       \<and> [] \<notin> set S \<and> map Some S = filter truthyName (domNames w)"
proof -
  have "\<exists>S. map jsonOfName ns = map JStr S \<and> [] \<notin> set S \<and> map Some S = ns"
    if "list_all truthyName ns" for ns
    using that
  proof (induction ns)
    case Nil
    then show ?case by simp
  next
    case (Cons n ns)
    then obtain S where S: "map jsonOfName ns = map JStr S" "[] \<notin> set S" "map Some S = ns"
      by auto
    from Cons.prems obtain a where a: "n = Some a" "a \<noteq> []"
      by (cases n) (auto simp: truthyName_def)
    have "map jsonOfName (n # ns) = map JStr (a # S) \<and> [] \<notin> set (a # S) \<and> map Some (a # S) = n # ns"
      using S a by (auto simp: jsonOfName_def)
    then show ?case by (intro exI [of _ "a # S"])
  qed
  from this [of "filter truthyName (domNames w)"]
  obtain S where "map jsonOfName (filter truthyName (domNames w)) = map JStr S"
    "[] \<notin> set S" "map Some S = filter truthyName (domNames w)"
    by (auto simp: list_all_iff)
  then show ?thesis
    using save_stores [of w] by auto
qed

lemma up_effects:
  assumes d: "drag w = Some d" and l: "d_list d"
  shows "snd (up w) = None"
    and "kids (fst (up w)) = replaceWith (d_ph d) (d_row d) (kids w)"
    and "localStorage (fst (up w)) STORAGE_KEY
           = Some (JSON_stringify (JArr (map jsonOfName (filter truthyName (domNames (fst (up w)))))))"
    and "drag (fst (up w)) = None"
    and "\<not> onpointermove (fst (up w))" and "\<not> onpointerup (fst (up w))"
    and "inline (heap (fst (up w)) (d_row d))
           = (inline (heap w (d_row d)))\<lparr>css_position := [], css_left := None, css_top := None,
                css_width := None, css_pointerEvents := []\<rparr>"
    and "CLASSES_dragging \<notin> set (classList (heap (fst (up w)) (d_row d)))"
proof -
  let ?w1 = "w\<lparr>kids := replaceWith (d_ph d) (d_row d) (kids w),
               heap := (heap w)(d_row d := (heap w (d_row d))
                 \<lparr>classList := classList_remove CLASSES_dragging (classList (heap w (d_row d))),
                  inline := (inline (heap w (d_row d)))
                     \<lparr>css_position := [], css_left := None, css_top := None,
                      css_width := None, css_pointerEvents := []\<rparr>\<rparr>)\<rparr>"
  have u: "up w = ((save ?w1)\<lparr>drag := None, onpointermove := False, onpointerup := False\<rparr>, None)"
    using d l by (simp add: up_def Let_def)
  have "domNames (fst (up w)) = domNames ?w1"
    by (rule domNames_cong) (simp_all add: u)
  then show "localStorage (fst (up w)) STORAGE_KEY
           = Some (JSON_stringify (JArr (map jsonOfName (filter truthyName (domNames (fst (up w)))))))"
    by (simp add: u save_stores)
  show "snd (up w) = None" "kids (fst (up w)) = replaceWith (d_ph d) (d_row d) (kids w)"
    "drag (fst (up w)) = None" "\<not> onpointermove (fst (up w))" "\<not> onpointerup (fst (up w))"
    "inline (heap (fst (up w)) (d_row d))
           = (inline (heap w (d_row d)))\<lparr>css_position := [], css_left := None, css_top := None,
                css_width := None, css_pointerEvents := []\<rparr>"
    "CLASSES_dragging \<notin> set (classList (heap (fst (up w)) (d_row d)))"
    by (simp_all add: u classList_remove_def)
qed

lemma replaceWith_set:
  "k \<in> set (replaceWith ph row ks) \<Longrightarrow> ph \<in> set ks \<Longrightarrow> ph \<noteq> row \<Longrightarrow>
   k = row \<or> (k \<in> set ks \<and> k \<noteq> ph)"
  by (auto simp: replaceWith_def split: if_splits dest: notin_set_remove1)

text \<open>
  When nothing but move events lies between \<open>#down\<close> and the release, the release
  leaves no placeholder behind.
\<close>

lemma session_end_no_placeholder:
  assumes row: "row \<in> set (kids w)" and none: "placeholders w = []"
  shows "placeholders (fst (pointerup (moves es (down lay e row w)))) = []"
proof -
  let ?w' = "moves es (down lay e row w)"
  let ?ph = "createElement w"
  let ?P = "\<lambda>w k. CLASSES_placeholder \<in> set (classList (heap w k))"
  have ne: "?ph \<noteq> row" using row createElement_fresh [of w] by auto
  have d: "map_option d_row (drag ?w') = Some row" "map_option d_list (drag ?w') = Some True"
    "map_option d_ph (drag ?w') = Some ?ph"
    using session_state [OF row, of es lay e] by simp_all
  then obtain d where dr: "drag ?w' = Some d" "d_row d = row" "d_list d" "d_ph d = ?ph"
    by (cases "drag ?w'") auto
  have one: "filter (?P ?w') (kids ?w') = [?ph]"
    using session_inv(3) [OF row none, of es lay e] by (simp add: placeholders_def)
  then have ph_in: "?ph \<in> set (kids ?w')"
    by (metis filter_is_subset list.set_intros(1) subsetD)
  have notP: "\<not> ?P ?w' k" if "k \<in> set (kids ?w')" "k \<noteq> ?ph" for k
  proof
    assume "?P ?w' k"
    then have "k \<in> set (filter (?P ?w') (kids ?w'))" using that(1) by simp
    then show False using one that(2) by simp
  qed
  have up: "onpointerup ?w'"
    by (simp add: moves_keeps down_session)
  have mset_row: "row \<in> set (kids ?w')"
  proof -
    have "row \<in> set (kids (down lay e row w))"
      using put_before_mset [OF row, of "createElement w"] row
      by (simp add: down_kids) (metis insert_iff set_mset_add_mset_insert set_mset_mset)
    moreover have "set (kids ?w') = set (kids (down lay e row w))"
      using session_inv(2) [OF row none, of es lay e] by (rule mset_eq_setD)
    ultimately show ?thesis by simp
  qed
  let ?u = "fst (up ?w')"
  have ku: "kids ?u = replaceWith ?ph row (kids ?w')"
    using up_effects(2) [OF dr(1,3)] dr by simp
  have hu: "classList (heap ?u k) = (if k = row then classList_remove CLASSES_dragging (classList (heap ?w' k))
                                     else classList (heap ?w' k))" for k
    using dr by (simp add: up_def Let_def)
  have "\<not> ?P ?u k" if k: "k \<in> set (kids ?u)" for k
  proof -
    from replaceWith_set [OF k [unfolded ku] ph_in ne]
    have c: "k = row \<or> (k \<in> set (kids ?w') \<and> k \<noteq> ?ph)" .
    show ?thesis
    proof (cases "k = row")
      case True
      then have "\<not> ?P ?w' k" using notP [OF mset_row] ne by auto
      then show ?thesis using True by (simp add: hu classList_remove_def)
    next
      case False
      then show ?thesis using c notP by (simp add: hu)
    qed
  qed
  then have "placeholders ?u = []"
    by (simp add: placeholders_def filter_empty_conv)
  then show ?thesis
    using up by (simp add: pointerup_def)
qed

subsection \<open>The session of the example\<close>

lemma example_move_kids:
  "kids (fst (move (flow_layout 60) \<lparr>clientX = 10, clientY = 50\<rparr> example_drag)) = [1, 2, 3, 4, 6, 5]"
  by (simp add: drag_defs move_defs)

lemma example_move_target:
  "target (flow_layout 60) \<lparr>clientX = 10, clientY = 50\<rparr>
     \<lparr>d_row = 3, d_list = True, d_ph = 6, d_offX = 10, d_offY = 18, d_edge = 40\<rparr>
     (scanned (flow_layout 60) \<lparr>clientX = 10, clientY = 50\<rparr>
        \<lparr>d_row = 3, d_list = True, d_ph = 6, d_offX = 10, d_offY = 18, d_edge = 40\<rparr> example_drag)
   = Some 4"
  by (simp add: scanned_def drag_defs move_defs)

lemma example_move_kids_before:
  "kids (fst (move (flow_layout 60) \<lparr>clientX = 10, clientY = 10\<rparr> example_drag)) = [6, 1, 2, 3, 4, 5]"
  by (simp add: drag_defs move_defs)

lemma example_move_target_before:
  "target (flow_layout 60) \<lparr>clientX = 10, clientY = 10\<rparr>
     \<lparr>d_row = 3, d_list = True, d_ph = 6, d_offX = 10, d_offY = 18, d_edge = 40\<rparr>
     (scanned (flow_layout 60) \<lparr>clientX = 10, clientY = 10\<rparr>
        \<lparr>d_row = 3, d_list = True, d_ph = 6, d_offX = 10, d_offY = 18, d_edge = 40\<rparr> example_drag)
   = Some 1"
  "upperHalf (flow_layout 60) \<lparr>clientX = 10, clientY = 10\<rparr>
     (scanned (flow_layout 60) \<lparr>clientX = 10, clientY = 10\<rparr>
        \<lparr>d_row = 3, d_list = True, d_ph = 6, d_offX = 10, d_offY = 18, d_edge = 40\<rparr> example_drag) 1"
  by (simp_all add: scanned_def drag_defs move_defs)

lemma example_move_after:
  "\<not> upperHalf (flow_layout 60) \<lparr>clientX = 10, clientY = 50\<rparr>
     (scanned (flow_layout 60) \<lparr>clientX = 10, clientY = 50\<rparr>
        \<lparr>d_row = 3, d_list = True, d_ph = 6, d_offX = 10, d_offY = 18, d_edge = 40\<rparr> example_drag) 4"
  by (simp add: scanned_def drag_defs move_defs)

theorem move_places_placeholder_witness:
  "drag example_drag = Some \<lparr>d_row = 3, d_list = True, d_ph = 6, d_offX = 10, d_offY = 18, d_edge = 40\<rparr>
   \<and> \<not> menuitem (heap example_drag 6)
   \<and> kids example_drag = [1, 2, 6, 3, 4, 5]
   \<and> target (flow_layout 60) \<lparr>clientX = 10, clientY = 50\<rparr>
        \<lparr>d_row = 3, d_list = True, d_ph = 6, d_offX = 10, d_offY = 18, d_edge = 40\<rparr>
        (scanned (flow_layout 60) \<lparr>clientX = 10, clientY = 50\<rparr>
           \<lparr>d_row = 3, d_list = True, d_ph = 6, d_offX = 10, d_offY = 18, d_edge = 40\<rparr> example_drag)
      = Some 4
   \<and> \<not> upperHalf (flow_layout 60) \<lparr>clientX = 10, clientY = 50\<rparr>
        (scanned (flow_layout 60) \<lparr>clientX = 10, clientY = 50\<rparr>
           \<lparr>d_row = 3, d_list = True, d_ph = 6, d_offX = 10, d_offY = 18, d_edge = 40\<rparr> example_drag) 4
   \<and> kids (fst (move (flow_layout 60) \<lparr>clientX = 10, clientY = 50\<rparr> example_drag))
      = [1, 2, 3] @ 4 # 6 # [5]
   \<and> target (flow_layout 60) \<lparr>clientX = 10, clientY = 10\<rparr>
        \<lparr>d_row = 3, d_list = True, d_ph = 6, d_offX = 10, d_offY = 18, d_edge = 40\<rparr>
        (scanned (flow_layout 60) \<lparr>clientX = 10, clientY = 10\<rparr>
           \<lparr>d_row = 3, d_list = True, d_ph = 6, d_offX = 10, d_offY = 18, d_edge = 40\<rparr> example_drag)
      = Some 1
   \<and> upperHalf (flow_layout 60) \<lparr>clientX = 10, clientY = 10\<rparr>
        (scanned (flow_layout 60) \<lparr>clientX = 10, clientY = 10\<rparr>
           \<lparr>d_row = 3, d_list = True, d_ph = 6, d_offX = 10, d_offY = 18, d_edge = 40\<rparr> example_drag) 1
   \<and> kids (fst (move (flow_layout 60) \<lparr>clientX = 10, clientY = 10\<rparr> example_drag))
      = [] @ 6 # 1 # [2, 3, 4, 5]"
proof -
  have p: "\<not> menuitem (heap example_drag (d_ph \<lparr>d_row = 3, d_list = True, d_ph = 6, d_offX = 10, d_offY = 18, d_edge = 40\<rparr>))"
    by (simp add: drag_defs)
  show ?thesis
    using move_places_placeholder [OF example_drag_session _ p, of "flow_layout 60" "\<lparr>clientX = 10, clientY = 50\<rparr>"]
      move_places_placeholder [OF example_drag_session _ p, of "flow_layout 60" "\<lparr>clientX = 10, clientY = 10\<rparr>"]
      example_drag_session p example_drag_kids example_move_target example_move_kids
      example_move_target_before example_move_kids_before example_move_after
    by simp
qed

theorem move_frame_witness:
  "drag example_drag = Some \<lparr>d_row = 3, d_list = True, d_ph = 6, d_offX = 10, d_offY = 18, d_edge = 40\<rparr>
   \<and> kids example_drag = [1, 2, 6, 3, 4, 5]
   \<and> kids (fst (move (flow_layout 60) \<lparr>clientX = 10, clientY = 50\<rparr> example_drag)) = [1, 2, 3, 4, 6, 5]
   \<and> filter (\<lambda>k. k \<noteq> 6) (kids (fst (move (flow_layout 60) \<lparr>clientX = 10, clientY = 50\<rparr> example_drag)))
      = [1, 2, 3, 4, 5]
   \<and> localStorage (fst (move (flow_layout 60) \<lparr>clientX = 10, clientY = 50\<rparr> example_drag))
      = localStorage example_drag"
  using move_frame [OF example_drag_session, of "flow_layout 60" "\<lparr>clientX = 10, clientY = 50\<rparr>"]
    example_drag_session example_drag_kids example_move_kids
  by simp


lemma up_text:
  "menuitem (heap (fst (up w)) k) = menuitem (heap w k)"
  "truncateText (heap (fst (up w)) k) = truncateText (heap w k)"
  by (simp_all add: up_def Let_def split: option.splits)

lemma move_text:
  "menuitem (heap (fst (move lay e w)) k) = menuitem (heap w k)"
  "truncateText (heap (fst (move lay e w)) k) = truncateText (heap w k)"
  by (simp_all add: move_def follow_def split: option.splits)

lemma down_text:
  "k \<noteq> createElement w \<Longrightarrow> menuitem (heap (down lay e row w) k) = menuitem (heap w k)"
  "k \<noteq> createElement w \<Longrightarrow> truncateText (heap (down lay e row w) k) = truncateText (heap w k)"
  by (simp_all add: down_def Let_def)

text \<open>
  The scenario of a drag: rows A, B, C, nothing stored; A is picked up, moved over the
  lower half of B and released.  The DOM order and the stored order are B, A, C.
\<close>

lemma example_drag_A_below_B:
  "domNames (fst (pointerup (moves [(flow_layout 200, \<lparr>clientX = 10, clientY = 60\<rparr>)]
       (down (flow_layout 200) \<lparr>clientX = 10, clientY = 10\<rparr> 1 example_ABC))))
     = [Some ''B'', Some ''A'', Some ''C'']
   \<and> localStorage (fst (pointerup (moves [(flow_layout 200, \<lparr>clientX = 10, clientY = 60\<rparr>)]
       (down (flow_layout 200) \<lparr>clientX = 10, clientY = 10\<rparr> 1 example_ABC)))) STORAGE_KEY
     = Some (Json (JArr [JStr ''B'', JStr ''A'', JStr ''C'']))
   \<and> kids (fst (pointerup (moves [(flow_layout 200, \<lparr>clientX = 10, clientY = 60\<rparr>)]
       (down (flow_layout 200) \<lparr>clientX = 10, clientY = 10\<rparr> 1 example_ABC)))) = [2, 1, 3]"
proof -
  let ?w1 = "down (flow_layout 200) \<lparr>clientX = 10, clientY = 10\<rparr> (Suc 0) example_ABC"
  let ?d = "\<lparr>d_row = Suc 0, d_list = True, d_ph = 4, d_offX = 10, d_offY = 10, d_edge = 40\<rparr>"
  have c: "createElement example_ABC = 4"
    by (simp add: createElement_def example_defs)
  have d: "drag ?w1 = Some ?d"
    by (simp add: drag_defs example_defs)
  have k1: "kids ?w1 = [4, Suc 0, 2, 3]"
    by (simp add: drag_defs example_defs)
  let ?w2 = "fst (move (flow_layout 200) \<lparr>clientX = 10, clientY = 60\<rparr> ?w1)"
  have k2: "kids ?w2 = [Suc 0, 2, 4, 3]"
    by (simp add: drag_defs example_defs move_defs)
  have d2: "drag ?w2 = Some ?d"
    using pointermove_keeps(1) [of "flow_layout 200" "\<lparr>clientX = 10, clientY = 60\<rparr>" ?w1] d
    by (simp add: pointermove_def down_session)
  have o2: "onpointerup ?w2"
    using pointermove_keeps(2) [of "flow_layout 200" "\<lparr>clientX = 10, clientY = 60\<rparr>" ?w1]
    by (simp add: pointermove_def down_session)
  have mv: "moves [(flow_layout 200, \<lparr>clientX = 10, clientY = 60\<rparr>)] ?w1 = ?w2"
    by (simp add: pointermove_def down_session)
  have u: "kids (fst (up ?w2)) = [2, Suc 0, 3]"
    using up_effects(2) [OF d2] by (simp add: k2 replaceWith_def)
  have e: "menuitem (heap example_ABC 2)" "menuitem (heap example_ABC (Suc 0))"
    "menuitem (heap example_ABC 3)" "truncateText (heap example_ABC 2) = Some ''B''"
    "truncateText (heap example_ABC (Suc 0)) = Some ''A''"
    "truncateText (heap example_ABC 3) = Some ''C''"
    by (simp_all add: example_defs)
  have mi: "menuitem (heap (fst (up ?w2)) 2)" "menuitem (heap (fst (up ?w2)) (Suc 0))"
    "menuitem (heap (fst (up ?w2)) 3)"
    by (simp_all add: up_text move_text down_text c e)
  have tt: "truncateText (heap (fst (up ?w2)) 2) = Some ''B''"
    "truncateText (heap (fst (up ?w2)) (Suc 0)) = Some ''A''"
    "truncateText (heap (fst (up ?w2)) 3) = Some ''C''"
    by (simp_all add: up_text move_text down_text c e)
  have r: "rows (fst (up ?w2)) = [2, Suc 0, 3]"
    by (simp add: rows_def u mi)
  have n: "domNames (fst (up ?w2)) = [Some ''B'', Some ''A'', Some ''C'']"
    by (simp add: domNames_def rowName_def r tt trim_def isWhiteSpace_def)
  have "localStorage (fst (up ?w2)) STORAGE_KEY = Some (Json (JArr [JStr ''B'', JStr ''A'', JStr ''C'']))"
    using up_effects(3) [OF d2]
    by (simp add: n truthyName_def jsonOfName_def JSON_stringify_def)
  then show ?thesis
    using n u o2 by (simp add: mv pointerup_def del: moves.simps)
qed


subsection \<open>The rounded sums decide the tests\<close>

text \<open>
  The tests of \<open>#move\<close> compare the pointer with the sums as the host rounds them, not
  with the exact ones.  A pointer at 0.7999999999999999 lies above the exact middle of a
  row from 0.1 over a height of 1.4, and yet the test for the upper half fails, since the
  sum rounds to the pointer's own coordinate; a pointer at 40.3 is less than 40 below the
  exact top 0.3 of the list, and yet the list is not scrolled.
\<close>

lemma binary64_half_example:
  "binary64 (3152519739159347 / 2 ^ 51 / 2) = 3152519739159347 / 2 ^ 52"
  by (subst binary64_at [where k = "- 1" and u = "1 / 2 ^ 53"]) (simp_all add: rne_def two_powr_neg)

lemma binary64_sum_example:
  "binary64 (3602879701896397 / 2 ^ 55 + 3152519739159347 / 2 ^ 52) = 7205759403792793 / 2 ^ 53"
  by (subst binary64_at [where k = "- 1" and u = "1 / 2 ^ 53"]) (simp_all add: rne_def two_powr_neg)

lemma binary64_margin_example:
  "binary64 (5404319552844595 / 2 ^ 54 + 40) = 2835860390359859 / 2 ^ 46"
  by (subst binary64_at [where k = 5 and u = "1 / 2 ^ 47"]) (simp_all add: rne_def two_powr_neg)

lemma fractional_layout_simps:
  "r_top (nodeRect fractional_layout w item) = 3602879701896397 / 2 ^ 55"
  "r_height (nodeRect fractional_layout w item) = 3152519739159347 / 2 ^ 51"
  "r_top (listRect fractional_layout w) = 5404319552844595 / 2 ^ 54"
  "r_bottom (listRect fractional_layout w) = 500"
  "num fractional_layout = binary64"
  by (simp_all add: fractional_layout_def)

lemma upperHalf_rounded:
  "7205759403792793 / 2 ^ 53
     < r_top (nodeRect fractional_layout w item) + r_height (nodeRect fractional_layout w item) / 2
   \<and> \<not> upperHalf fractional_layout \<lparr>clientX = 0, clientY = 7205759403792793 / 2 ^ 53\<rparr> w item"
proof -
  have h: "js_half fractional_layout (r_height (nodeRect fractional_layout w item))
      = 3152519739159347 / 2 ^ 52"
    unfolding js_half_def fractional_layout_simps by (rule binary64_half_example)
  have "js_plus fractional_layout (r_top (nodeRect fractional_layout w item))
        (js_half fractional_layout (r_height (nodeRect fractional_layout w item)))
      = 7205759403792793 / 2 ^ 53"
    unfolding h unfolding js_plus_def fractional_layout_simps by (rule binary64_sum_example)
  then have "\<not> upperHalf fractional_layout \<lparr>clientX = 0, clientY = 7205759403792793 / 2 ^ 53\<rparr> w item"
    by (simp add: upperHalf_def)
  moreover have "(7205759403792793 / 2 ^ 53 :: real)
     < r_top (nodeRect fractional_layout w item) + r_height (nodeRect fractional_layout w item) / 2"
    unfolding fractional_layout_simps by simp
  ultimately show ?thesis by simp
qed

lemma autoScroll_rounded:
  "2835860390359859 / 2 ^ 46 < r_top (listRect fractional_layout w) + 40
   \<and> autoScroll fractional_layout \<lparr>clientX = 0, clientY = 2835860390359859 / 2 ^ 46\<rparr> 40 w = w"
proof -
  have p: "js_plus fractional_layout (r_top (listRect fractional_layout w)) 40 = 2835860390359859 / 2 ^ 46"
    unfolding js_plus_def fractional_layout_simps by (rule binary64_margin_example)
  have m: "js_minus fractional_layout (r_bottom (listRect fractional_layout w)) 40 = 460"
    unfolding js_minus_def fractional_layout_simps by simp
  have "autoScroll fractional_layout \<lparr>clientX = 0, clientY = 2835860390359859 / 2 ^ 46\<rparr> 40 w = w"
    by (simp add: autoScroll_def Let_def p m)
  moreover have "(2835860390359859 / 2 ^ 46 :: real) < r_top (listRect fractional_layout w) + 40"
    unfolding fractional_layout_simps by simp
  ultimately show ?thesis by simp
qed

subsection \<open>A second pointer-down\<close>

lemma example_two_downs_kids: "kids example_two_downs = [4, 1, 5, 2, 3]"
  by (simp add: example_two_downs_def drag_defs example_defs)

lemma example_two_downs_drag:
  "drag example_two_downs
     = Some \<lparr>d_row = 2, d_list = True, d_ph = 5, d_offX = 10, d_offY = 14, d_edge = 40\<rparr>"
  by (simp add: example_two_downs_def drag_defs example_defs)

text \<open>
  Claim C6.  \<open>#down\<close> has no guard: it runs on every pointer-down on a handle, also while
  a drag is open (a second pointer, or a drag whose pointer-up never reached the
  document).  It then creates a second placeholder and overwrites the \<open>drag\<close> object and
  the handlers, so the first drag's placeholder has no owner any more.  In the example the
  list holds two placeholders between the second pointer-down and the pointer-up, and one
  is still there after the pointer-up, for good: the release removes only the placeholder
  of the second drag.
\<close>

theorem second_down_two_placeholders:
  "placeholders example_ABC = []
   \<and> placeholders (down (flow_layout 200) \<lparr>clientX = 10, clientY = 10\<rparr> 1 example_ABC) = [4]
   \<and> kids example_two_downs = [4, 1, 5, 2, 3]
   \<and> placeholders example_two_downs = [4, 5]
   \<and> snd (pointerup example_two_downs) = None
   \<and> kids (fst (pointerup example_two_downs)) = [4, 1, 2, 3]
   \<and> placeholders (fst (pointerup example_two_downs)) = [4]
   \<and> drag (fst (pointerup example_two_downs)) = None
   \<and> \<not> onpointerup (fst (pointerup example_two_downs))"
proof -
  have a: "placeholders example_ABC = []"
    "placeholders (down (flow_layout 200) \<lparr>clientX = 10, clientY = 10\<rparr> 1 example_ABC) = [4]"
    by (simp_all add: placeholders_def drag_defs example_defs)
  have b: "placeholders example_two_downs = [4, 5]"
    by (simp add: placeholders_def example_two_downs_def drag_defs example_defs)
  have o: "onpointerup example_two_downs"
    by (simp add: example_two_downs_def down_session)
  note u = up_effects [OF example_two_downs_drag]
  have k: "kids (fst (up example_two_downs)) = [4, 1, 2, 3]"
    using u(2) by (simp add: example_two_downs_kids replaceWith_def)
  have c: "classList (heap (fst (up example_two_downs)) 4) = [CLASSES_placeholder]"
    "CLASSES_placeholder \<notin> set (classList (heap (fst (up example_two_downs)) 1))"
    "CLASSES_placeholder \<notin> set (classList (heap (fst (up example_two_downs)) 2))"
    "CLASSES_placeholder \<notin> set (classList (heap (fst (up example_two_downs)) 3))"
    by (simp_all add: up_def Let_def example_two_downs_drag classList_remove_def
        example_two_downs_def drag_defs example_defs)
  have p: "placeholders (fst (up example_two_downs)) = [4]"
    using c by (simp add: placeholders_def k)
  show ?thesis
    using a b k p u(1,4,6) by (simp add: pointerup_def o example_two_downs_kids)
qed


end
